theory Spec2Isabelle
  imports Complex_Main
begin

section \<open>Strings and paths\<close>

text \<open>
  A Python string is modelled as the \<open>string\<close> of the bytes of its UTF-8 encoding; the
  helpers below are \<open>str.startswith\<close>, \<open>str.endswith\<close> and the substring test
  \<open>sub in s\<close>.
\<close>

definition startswith :: "string \<Rightarrow> string \<Rightarrow> bool" where
  "startswith s p = (take (length p) s = p)"

definition endswith :: "string \<Rightarrow> string \<Rightarrow> bool" where
  "endswith s p = (length p \<le> length s \<and> drop (length s - length p) s = p)"

fun contains :: "string \<Rightarrow> string \<Rightarrow> bool" where
  "contains [] sub = (sub = [])"
| "contains (c # cs) sub = (startswith (c # cs) sub \<or> contains cs sub)"

text \<open>
  A \<open>pathlib\<close> path is the list of its components; absolute paths are lists of components
  below the root. \<open>split_path\<close> parses a string the way \<open>PurePosixPath\<close> does: components
  are separated by \<open>/\<close>, empty components and \<open>.\<close> components are dropped, \<open>..\<close> is kept.
\<close>

type_synonym path = "string list"

fun split_slash :: "string \<Rightarrow> string \<Rightarrow> string list" where
  "split_slash acc [] = [rev acc]"
| "split_slash acc (c # cs) =
     (if c = CHR ''/'' then rev acc # split_slash [] cs else split_slash (c # acc) cs)"

definition split_path :: "string \<Rightarrow> path" where
  "split_path s = filter (\<lambda>c. c \<noteq> [] \<and> c \<noteq> ''.'') (split_slash [] s)"

definition is_absolute :: "string \<Rightarrow> bool" where
  "is_absolute s = startswith s ''/''"

text \<open>\<open>base / s\<close>: an absolute right operand replaces the left one.\<close>

definition joinpath :: "path \<Rightarrow> string \<Rightarrow> path" where
  "joinpath base s = (if is_absolute s then split_path s else base @ split_path s)"

text \<open>
  \<open>Path.resolve()\<close> on a file system without symbolic links: \<open>..\<close> removes the component
  before it, and stays at the root when there is none.
\<close>

fun resolve_acc :: "path \<Rightarrow> path \<Rightarrow> path" where
  "resolve_acc acc [] = rev acc"
| "resolve_acc acc (c # cs) =
     (if c = ''..'' then resolve_acc (tl acc) cs else resolve_acc (c # acc) cs)"

definition resolve :: "path \<Rightarrow> path" where
  "resolve p = resolve_acc [] p"

text \<open>\<open>str(p)\<close> of an absolute path, and \<open>p.as_posix()\<close> of a relative one.\<close>

definition str_abs :: "path \<Rightarrow> string" where
  "str_abs p = (if p = [] then ''/'' else concat (map (\<lambda>c. CHR ''/'' # c) p))"

fun as_posix :: "path \<Rightarrow> string" where
  "as_posix [] = ''.''"
| "as_posix [c] = c"
| "as_posix (c # d # cs) = c @ CHR ''/'' # as_posix (d # cs)"

text \<open>\<open>p.name\<close>: the last component, or the empty string.\<close>

definition path_name :: "path \<Rightarrow> string" where
  "path_name p = (if p = [] then [] else last p)"

text \<open>\<open>p.relative_to(base)\<close> raises \<open>ValueError\<close> (here \<open>None\<close>) when \<open>p\<close> is not below \<open>base\<close>.\<close>

definition relative_to :: "path \<Rightarrow> path \<Rightarrow> path option" where
  "relative_to p base =
     (if take (length base) p = base then Some (drop (length base) p) else None)"

section \<open>Artifact classification\<close>

text \<open>\<open>_classify_artifact\<close>, branch by branch in the order of the source.\<close>

definition classify_artifact :: "string \<Rightarrow> string" where
  "classify_artifact rel_path =
     (if rel_path = ''figure.png'' then ''figure''
      else if rel_path = ''samed.png'' then ''samed''
      else if endswith rel_path ''_nobg.png'' then ''icon_nobg''
      else if startswith rel_path ''icons/'' \<and> endswith rel_path ''.png'' then ''icon_raw''
      else if rel_path = ''template.svg'' then ''template_svg''
      else if rel_path = ''optimized_template.svg'' then ''optimized_svg''
      else if rel_path = ''final.svg'' then ''final_svg''
      else ''artifact'')"

text \<open>
  The classification as the specification words it: the five exact file names first, then
  the suffix pattern, then the prefix-and-suffix pattern, then the generic tag.
\<close>

definition classify_spec :: "string \<Rightarrow> string" where
  "classify_spec rel_path =
     (if rel_path = ''figure.png'' then ''figure''
      else if rel_path = ''samed.png'' then ''samed''
      else if rel_path = ''template.svg'' then ''template_svg''
      else if rel_path = ''optimized_template.svg'' then ''optimized_svg''
      else if rel_path = ''final.svg'' then ''final_svg''
      else if endswith rel_path ''_nobg.png'' then ''icon_nobg''
      else if startswith rel_path ''icons/'' \<and> endswith rel_path ''.png'' then ''icon_raw''
      else ''artifact'')"

definition kind_tags :: "string list" where
  "kind_tags = [''figure'', ''samed'', ''template_svg'', ''optimized_svg'', ''final_svg'',
                ''icon_nobg'', ''icon_raw'', ''artifact'']"

section \<open>Events, subprocesses and jobs\<close>

text \<open>
  A message on a job's bus is the dictionary \<open>{"event": ..., "data": ...}\<close> built by
  \<open>Job.push\<close>; the data is a dictionary from field names to JSON values.
\<close>

datatype jval = JStr string | JInt int | JNull

type_synonym payload = "(string \<times> jval) list"

datatype msg = Msg (event: string) (data: payload)

text \<open>
  The subprocess handle (\<open>subprocess.Popen\<close>): \<open>returncode\<close> is \<open>None\<close> until a
  \<open>poll\<close> or \<open>wait\<close> has observed the exit and is cached from then on; \<open>signals\<close> lists
  the signals sent through the handle (\<open>terminate\<close>, \<open>kill\<close>).
\<close>

datatype signal = SIGTERM | SIGKILL

record popen =
  returncode :: "int option"
  signals :: "signal list"

text \<open>
  \<open>poll\<close> takes the exit status the operating system holds at that moment (\<open>None\<close> for a
  live process). \<open>wait(timeout=5)\<close> is a poll at the end of the grace period; it raises
  \<open>TimeoutExpired\<close> when \<open>returncode\<close> is still \<open>None\<close> afterwards. \<open>terminate\<close> and
  \<open>kill\<close> are \<open>send_signal\<close>, which polls first and sends nothing to a subprocess that
  has exited.
\<close>

definition poll :: "int option \<Rightarrow> popen \<Rightarrow> popen" where
  "poll os p = (if returncode p = None then p\<lparr>returncode := os\<rparr> else p)"

definition send_signal :: "signal \<Rightarrow> int option \<Rightarrow> popen \<Rightarrow> popen" where
  "send_signal sig os p =
     (let p1 = poll os p
      in if returncode p1 \<noteq> None then p1 else p1\<lparr>signals := signals p1 @ [sig]\<rparr>)"

definition terminate :: "int option \<Rightarrow> popen \<Rightarrow> popen" where
  "terminate os p = send_signal SIGTERM os p"

definition kill :: "int option \<Rightarrow> popen \<Rightarrow> popen" where
  "kill os p = send_signal SIGKILL os p"

text \<open>
  The \<open>Job\<close> dataclass. \<open>queue\<close> is the content of the synchronous queue in the order of
  the \<open>put\<close> calls; \<open>subscribers\<close> holds, for every attached asynchronous queue, a handle
  and the messages that \<open>push\<close> has scheduled for it on the subscriber's event loop, in
  the order of the calls. Times are seconds as returned by \<open>time.time()\<close>. The content of
  the log file is not tracked.
\<close>

record job =
  job_id :: string
  output_dir :: path
  process :: popen
  queue :: "msg list"
  log_path :: path
  seen :: "string set"
  done_flag :: bool
  last_stderr :: string
  started_at :: real
  finished_at :: real
  subscribers :: "(nat \<times> msg list) list"

definition push :: "string \<Rightarrow> payload \<Rightarrow> job \<Rightarrow> job" where
  "push ev d j =
     j\<lparr>queue := queue j @ [Msg ev d],
       subscribers := map (\<lambda>(h, q). (h, q @ [Msg ev d])) (subscribers j)\<rparr>"

definition subscribe :: "job \<Rightarrow> nat \<times> job" where
  "subscribe j =
     (let h = Suc (fold max (map fst (subscribers j)) 0)
      in (h, j\<lparr>subscribers := subscribers j @ [(h, [])]\<rparr>))"

definition unsubscribe :: "nat \<Rightarrow> job \<Rightarrow> job" where
  "unsubscribe h j = j\<lparr>subscribers := filter (\<lambda>(q, l). q \<noteq> h) (subscribers j)\<rparr>"

text \<open>
  The messages scheduled for the queue behind a handle, and the job after the threads
  have pushed a sequence of messages one after the other.
\<close>

definition subscriber_queue :: "nat \<Rightarrow> job \<Rightarrow> msg list option" where
  "subscriber_queue h j = map_of (subscribers j) h"

definition deliver :: "msg list \<Rightarrow> job \<Rightarrow> job" where
  "deliver ms j = fold (\<lambda>m. push (event m) (data m)) ms j"

text \<open>
  The job object built by \<open>run_job\<close>: the output directory is \<open>OUTPUTS_DIR / job_id\<close> (the
  identifier is a single path component), the log file is \<open>run.log\<close> in it, and the other
  fields take the defaults of the dataclass.
\<close>

definition new_job :: "path \<Rightarrow> string \<Rightarrow> real \<Rightarrow> job" where
  "new_job outputs jid now =
     \<lparr>job_id = jid, output_dir = outputs @ [jid],
      process = \<lparr>returncode = None, signals = []\<rparr>,
      queue = [], log_path = outputs @ [jid, ''run.log''], seen = {},
      done_flag = False, last_stderr = [], started_at = now, finished_at = 0,
      subscribers = []\<rparr>"

definition JOB_TIMEOUT_SECONDS :: nat where
  "JOB_TIMEOUT_SECONDS = 600"

definition JOB_RETENTION_SECONDS :: nat where
  "JOB_RETENTION_SECONDS = 3600"

section \<open>Artifact scanner\<close>

text \<open>
  A snapshot of the file system: the regular files, and the directories with the names
  of their entries in the order in which a listing returns them.
\<close>

record fs =
  files :: "path set"
  dirs :: "path \<rightharpoonup> string list"

text \<open>The pattern \<open>icon_*.png\<close> of the glob in the icons directory.\<close>

definition glob_icon :: "string \<Rightarrow> bool" where
  "glob_icon n = (startswith n ''icon_'' \<and> endswith n ''.png'' \<and> 9 \<le> length n)"

text \<open>
  The candidate list of \<open>_scan_artifacts\<close>. Every candidate is \<open>output_dir / rel\<close>; the
  list holds the relative parts \<open>rel\<close>, which is what \<open>path.relative_to(output_dir)\<close>
  gives back.
\<close>

definition candidates :: "fs \<Rightarrow> path \<Rightarrow> path list" where
  "candidates f out =
     [[''figure.png''], [''samed.png''], [''template.svg''], [''optimized_template.svg''],
      [''final.svg'']] @
     (case dirs f (out @ [''icons'']) of
        None \<Rightarrow> []
      | Some names \<Rightarrow> map (\<lambda>n. [''icons'', n]) (filter glob_icon names))"

definition artifact_data :: "string \<Rightarrow> string \<Rightarrow> string \<Rightarrow> string \<Rightarrow> payload" where
  "artifact_data kind name rel_path url_tail =
     [(''kind'', JStr kind), (''name'', JStr name), (''path'', JStr rel_path),
      (''url'', JStr (''/api/artifacts/'' @ url_tail))]"

text \<open>The body of the scanner's loop for one candidate, and the scanner.\<close>

definition scan_one :: "fs \<Rightarrow> path \<Rightarrow> job \<Rightarrow> job" where
  "scan_one f rel j =
     (if output_dir j @ rel \<notin> files f then j
      else let rel_path = as_posix rel in
        if rel_path \<in> seen j then j
        else push ''artifact''
               (artifact_data (classify_artifact rel_path) (path_name rel) rel_path
                  (job_id j @ ''/'' @ rel_path))
               (j\<lparr>seen := insert rel_path (seen j)\<rparr>))"

definition scan_artifacts :: "fs \<Rightarrow> job \<Rightarrow> job" where
  "scan_artifacts f j = fold (scan_one f) (candidates f (output_dir j)) j"

section \<open>Output drain\<close>

text \<open>
  The characters for which \<open>str.isspace()\<close> holds, in UTF-8: the code points 9 to 13,
  28 to 32, 85 and A0, 1680, 2000 to 200A, 2028, 2029, 202F, 205F and 3000 (hexadecimal
  from 85 on).
\<close>

definition white_space :: "string list" where
  "white_space =
     [[CHR 0x09], [CHR 0x0A], [CHR 0x0B], [CHR 0x0C], [CHR 0x0D], [CHR 0x1C],
      [CHR 0x1D], [CHR 0x1E], [CHR 0x1F], [CHR 0x20], [CHR 0xC2, CHR 0x85],
      [CHR 0xC2, CHR 0xA0], [CHR 0xE1, CHR 0x9A, CHR 0x80],
      [CHR 0xE2, CHR 0x80, CHR 0x80], [CHR 0xE2, CHR 0x80, CHR 0x81],
      [CHR 0xE2, CHR 0x80, CHR 0x82], [CHR 0xE2, CHR 0x80, CHR 0x83],
      [CHR 0xE2, CHR 0x80, CHR 0x84], [CHR 0xE2, CHR 0x80, CHR 0x85],
      [CHR 0xE2, CHR 0x80, CHR 0x86], [CHR 0xE2, CHR 0x80, CHR 0x87],
      [CHR 0xE2, CHR 0x80, CHR 0x88], [CHR 0xE2, CHR 0x80, CHR 0x89],
      [CHR 0xE2, CHR 0x80, CHR 0x8A], [CHR 0xE2, CHR 0x80, CHR 0xA8],
      [CHR 0xE2, CHR 0x80, CHR 0xA9], [CHR 0xE2, CHR 0x80, CHR 0xAF],
      [CHR 0xE2, CHR 0x81, CHR 0x9F], [CHR 0xE3, CHR 0x80, CHR 0x80]]"

text \<open>\<open>str.rstrip()\<close> removes white space from the end for as long as there is some.\<close>

definition strip_last :: "string \<Rightarrow> string option" where
  "strip_last s =
     (case filter (endswith s) white_space of
        [] \<Rightarrow> None
      | w # ws \<Rightarrow> Some (take (length s - length w) s))"

lemma strip_last_shorter: "strip_last s = Some s' \<Longrightarrow> length s' < length s"
proof -
  assume a: "strip_last s = Some s'"
  then obtain w ws where f: "filter (endswith s) white_space = w # ws"
    and s': "s' = take (length s - length w) s"
    by (auto simp add: strip_last_def split: list.splits)
  have "w \<in> set (filter (endswith s) white_space)"
    using f by simp
  then have "w \<in> set white_space" and "length w \<le> length s"
    by (simp_all add: endswith_def)
  moreover have "[] \<notin> set white_space"
    by (simp add: white_space_def)
  ultimately have "0 < length w \<and> length w \<le> length s"
    by auto
  then have "length s - length w < length s"
    by arith
  then show ?thesis
    using s' by simp
qed

function rstrip :: "string \<Rightarrow> string" where
  "rstrip s = (case strip_last s of None \<Rightarrow> s | Some s' \<Rightarrow> rstrip s')"
  by pat_completeness auto
termination
  by (relation "measure length") (simp_all add: strip_last_shorter)

declare rstrip.simps [simp del]

text \<open>
  \<open>_pipe_output\<close>: the pipe is the list of lines that \<open>readline\<close> returns before the end
  of the stream, or \<open>None\<close> when there is no pipe.
\<close>

definition pipe_line :: "string \<Rightarrow> string \<Rightarrow> job \<Rightarrow> job" where
  "pipe_line stream_name line j =
     (let text = rstrip line in
      if text = [] then j
      else let j1 = push ''log'' [(''stream'', JStr stream_name), (''line'', JStr text)] j
        in if stream_name = ''stderr'' then j1\<lparr>last_stderr := text\<rparr> else j1)"

definition pipe_output :: "job \<Rightarrow> string list option \<Rightarrow> string \<Rightarrow> job" where
  "pipe_output j pipe stream_name =
     (case pipe of None \<Rightarrow> j | Some lines \<Rightarrow> fold (pipe_line stream_name) lines j)"

section \<open>Process monitor\<close>

text \<open>
  What the monitor observes in one cycle of its loop: the file system at the scan, the
  clock, the exit status the operating system holds for the subprocess during the cycle,
  and the status it holds at the end of the grace period should the cycle terminate the
  subprocess.
\<close>

record obs =
  obs_fs :: fs
  obs_now :: real
  obs_exit :: "int option"
  obs_wait :: "int option"

text \<open>
  One cycle up to the exit check: the scan, the timeout check (which polls only when the
  budget is exceeded, terminates, waits and kills) and the poll of the exit check, whose
  answer \<open>poll() is not None\<close> is returned. The counter \<open>scan_count\<close> only feeds a progress
  message, whose own poll sees the exit status of the same cycle, and is left out.
\<close>

datatype cycle_result = Timed_out job | Polled bool job

definition monitor_cycle :: "obs \<Rightarrow> job \<Rightarrow> cycle_result" where
  "monitor_cycle ob j =
     (let j1 = scan_artifacts (obs_fs ob) j;
          elapsed = obs_now ob - started_at j1;
          p1 = (if elapsed > real JOB_TIMEOUT_SECONDS then poll (obs_exit ob) (process j1)
                else process j1)
      in if elapsed > real JOB_TIMEOUT_SECONDS \<and> returncode p1 = None then
           let p2 = poll (obs_wait ob) (terminate (obs_exit ob) p1);
               p3 = (if returncode p2 = None then kill (obs_wait ob) p2 else p2)
           in Timed_out (j1\<lparr>process := p3\<rparr>)
         else
           let p2 = poll (obs_exit ob) p1
           in Polled (returncode p2 \<noteq> None) (j1\<lparr>process := p2\<rparr>))"

text \<open>
  The loop: \<open>idle_cycles\<close> counts consecutive cycles whose poll reported an exit, and the
  loop ends at four. The result is \<open>timed_out\<close> with the job, or \<open>None\<close> when the loop is
  still running after the last observation.
\<close>

fun monitor_loop :: "obs list \<Rightarrow> nat \<Rightarrow> job \<Rightarrow> (bool \<times> job) option" where
  "monitor_loop [] idle_cycles j = None"
| "monitor_loop (ob # obss) idle_cycles j =
     (case monitor_cycle ob j of
        Timed_out j' \<Rightarrow> Some (True, j')
      | Polled exited j' \<Rightarrow>
          (let idle' = (if exited then idle_cycles + 1 else 0)
           in if 4 \<le> idle' then Some (False, j') else monitor_loop obss idle' j'))"

text \<open>The answers of the exit-check polls of the cycles the loop runs, in order.\<close>

fun poll_reports :: "obs list \<Rightarrow> nat \<Rightarrow> job \<Rightarrow> bool list" where
  "poll_reports [] idle_cycles j = []"
| "poll_reports (ob # obss) idle_cycles j =
     (case monitor_cycle ob j of
        Timed_out j' \<Rightarrow> []
      | Polled exited j' \<Rightarrow>
          (let idle' = (if exited then idle_cycles + 1 else 0)
           in exited # (if 4 \<le> idle' then [] else poll_reports obss idle' j')))"

text \<open>Decimal digits of a natural number, for the formatted timeout message.\<close>

fun str_nat :: "nat \<Rightarrow> string" where
  "str_nat n =
     (if n < 10 then [char_of (48 + n)] else str_nat (n div 10) @ [char_of (48 + n mod 10)])"

declare str_nat.simps [simp del]

definition timeout_prefix :: string where
  "timeout_prefix =
     [CHR 0xE4, CHR 0xBB, CHR 0xBB, CHR 0xE5, CHR 0x8A, CHR 0xA1, CHR 0xE8, CHR 0xB6,
      CHR 0x85, CHR 0xE6, CHR 0x97, CHR 0xB6, CHR 0xEF, CHR 0xBC, CHR 0x88,
      CHR 0xE8, CHR 0xB6, CHR 0x85, CHR 0xE8, CHR 0xBF, CHR 0x87, CHR 0x20]"

definition timeout_suffix :: string where
  "timeout_suffix =
     [CHR 0x20, CHR 0xE5, CHR 0x88, CHR 0x86, CHR 0xE9, CHR 0x92, CHR 0x9F, CHR 0xEF,
      CHR 0xBC, CHR 0x89, CHR 0xEF, CHR 0xBC, CHR 0x8C, CHR 0xE5, CHR 0xB7,
      CHR 0xB2, CHR 0xE8, CHR 0x87, CHR 0xAA, CHR 0xE5, CHR 0x8A, CHR 0xA8,
      CHR 0xE7, CHR 0xBB, CHR 0x88, CHR 0xE6, CHR 0xAD, CHR 0xA2, CHR 0xE3,
      CHR 0x80, CHR 0x82]"

definition timeout_message :: string where
  "timeout_message = timeout_prefix @ str_nat (JOB_TIMEOUT_SECONDS div 60) @ timeout_suffix"

text \<open>
  The data of the terminal status event of a job that was not timed out; the same
  expression builds the replayed event in \<open>stream_events\<close>.
\<close>

definition json_code :: "int option \<Rightarrow> jval" where
  "json_code rc = (case rc of None \<Rightarrow> JNull | Some c \<Rightarrow> JInt c)"

definition exit_data :: "job \<Rightarrow> payload" where
  "exit_data j =
     [(''state'', JStr ''finished''), (''code'', json_code (returncode (process j)))] @
     (if returncode (process j) \<noteq> None \<and> returncode (process j) \<noteq> Some 0 \<and> last_stderr j \<noteq> []
      then [(''error'', JStr (last_stderr j))] else [])"

definition timeout_data :: payload where
  "timeout_data =
     [(''state'', JStr ''finished''), (''code'', JInt (- 1)), (''error'', JStr timeout_message)]"

text \<open>
  The environment of one run of the monitor: the observations of the cycles, the file
  system at the final scan, the value of \<open>last_stderr\<close> that the drain thread of the error
  stream has left when the monitor reads it, and the clock at the end.
\<close>

record env =
  cycles :: "obs list"
  final_fs :: fs
  final_stderr :: string
  final_now :: real

text \<open>
  \<open>_monitor_job\<close>. \<open>Running\<close>: the loop has not ended within the observations.
  \<open>Raised\<close>: \<open>relative_to\<close> raised after the terminal status was pushed. The sweep of the
  registry that ends the function is \<open>cleanup_old_jobs\<close> below.
\<close>

datatype monitor_result = Running | Raised job | Returned job

definition finalize :: "env \<Rightarrow> bool \<Rightarrow> job \<Rightarrow> monitor_result" where
  "finalize e timed_out j =
     (let j1 = (scan_artifacts (final_fs e) j)\<lparr>last_stderr := final_stderr e\<rparr>;
          finished_data = (if timed_out then timeout_data else exit_data j1);
          j2 = push ''status'' finished_data j1
      in case relative_to (log_path j2) (output_dir j2) of
           None \<Rightarrow> Raised j2
         | Some rel \<Rightarrow>
             (let j3 = push ''artifact''
                         (artifact_data ''log'' (path_name (log_path j2)) (as_posix rel)
                            (job_id j2 @ ''/'' @ path_name (log_path j2))) j2;
                  j4 = j3\<lparr>finished_at := final_now e\<rparr>;
                  j5 = j4\<lparr>done_flag := True\<rparr>
              in Returned (push ''close'' [] j5)))"

definition monitor_job :: "env \<Rightarrow> job \<Rightarrow> monitor_result" where
  "monitor_job e j =
     (case monitor_loop (cycles e) 0 (push ''status'' [(''state'', JStr ''started'')] j) of
        None \<Rightarrow> Running
      | Some (timed_out, j') \<Rightarrow> finalize e timed_out j')"

text \<open>
  The states of the job as the monitor leaves them: after each cycle of the loop, and
  after each statement of the final part, which are the final scan (with \<open>last_stderr\<close> as
  the monitor reads it), the push of the terminal status, the push of the artifact event
  of the run log, the assignment of \<open>finished_at\<close>, the assignment of \<open>done\<close> and the push
  of the close event. \<open>monitor_states\<close> lists the job at the call, after the first push,
  and then these.
\<close>

fun monitor_loop_states :: "obs list \<Rightarrow> nat \<Rightarrow> job \<Rightarrow> job list" where
  "monitor_loop_states [] idle_cycles j = []"
| "monitor_loop_states (ob # obss) idle_cycles j =
     (case monitor_cycle ob j of
        Timed_out j' \<Rightarrow> [j']
      | Polled exited j' \<Rightarrow>
          (let idle' = (if exited then idle_cycles + 1 else 0)
           in j' # (if 4 \<le> idle' then [] else monitor_loop_states obss idle' j')))"

definition finalize_states :: "env \<Rightarrow> bool \<Rightarrow> job \<Rightarrow> job list" where
  "finalize_states e timed_out j =
     (let j1 = (scan_artifacts (final_fs e) j)\<lparr>last_stderr := final_stderr e\<rparr>;
          finished_data = (if timed_out then timeout_data else exit_data j1);
          j2 = push ''status'' finished_data j1
      in case relative_to (log_path j2) (output_dir j2) of
           None \<Rightarrow> [j1, j2]
         | Some rel \<Rightarrow>
             (let j3 = push ''artifact''
                         (artifact_data ''log'' (path_name (log_path j2)) (as_posix rel)
                            (job_id j2 @ ''/'' @ path_name (log_path j2))) j2;
                  j4 = j3\<lparr>finished_at := final_now e\<rparr>;
                  j5 = j4\<lparr>done_flag := True\<rparr>
              in [j1, j2, j3, j4, j5, push ''close'' [] j5]))"

definition monitor_states :: "env \<Rightarrow> job \<Rightarrow> job list" where
  "monitor_states e j =
     (let js = push ''status'' [(''state'', JStr ''started'')] j
      in j # js # monitor_loop_states (cycles e) 0 js @
         (case monitor_loop (cycles e) 0 js of
            None \<Rightarrow> []
          | Some (timed_out, j') \<Rightarrow> finalize_states e timed_out j'))"

text \<open>
  The messages a thread has put on the bus between two states of the job, and the orders
  in which the bus can receive the messages of the three threads: the monitor starts the
  two drain threads after its first push and never joins them, and every \<open>push\<close> is one
  atomic \<open>put\<close>.
\<close>

definition pushed :: "job \<Rightarrow> job \<Rightarrow> msg list" where
  "pushed j j' = drop (length (queue j)) (queue j')"

definition interleavings :: "msg list \<Rightarrow> msg list \<Rightarrow> msg list \<Rightarrow> msg list set" where
  "interleavings mon out err =
     (case mon of
        [] \<Rightarrow> {[]}
      | m # ms \<Rightarrow> (#) m ` (\<Union>logs \<in> shuffles out err. shuffles ms logs))"

section \<open>Registry and request handlers\<close>

datatype http_error = HTTPException nat string

type_synonym registry = "string \<rightharpoonup> job"

definition detail_no_job :: string where
  "detail_no_job =
     [CHR 0xE4, CHR 0xBB, CHR 0xBB, CHR 0xE5, CHR 0x8A, CHR 0xA1, CHR 0xE4, CHR 0xB8,
      CHR 0x8D, CHR 0xE5, CHR 0xAD, CHR 0x98, CHR 0xE5, CHR 0x9C, CHR 0xA8]"

text \<open>
  \<open>cancel_job\<close>: the answer and the registry afterwards, given the exit status the
  operating system holds for the subprocess when the handler calls \<open>terminate\<close>. The
  handler swallows an exception of \<open>terminate\<close> and answers the same.
\<close>

definition cancel_job ::
  "registry \<Rightarrow> int option \<Rightarrow> string \<Rightarrow> (http_error + string) \<times> registry" where
  "cancel_job JOBS os jid =
     (case JOBS jid of
        None \<Rightarrow> (Inl (HTTPException 404 detail_no_job), JOBS)
      | Some j \<Rightarrow>
          if done_flag j then (Inr ''already_finished'', JOBS)
          else (Inr ''cancelled'', JOBS(jid \<mapsto> j\<lparr>process := terminate os (process j)\<rparr>)))"

text \<open>\<open>_cleanup_old_jobs\<close>: the expired identifiers are popped from the registry.\<close>

definition expired :: "real \<Rightarrow> registry \<Rightarrow> string \<Rightarrow> bool" where
  "expired now JOBS jid =
     (case JOBS jid of
        None \<Rightarrow> False
      | Some j \<Rightarrow> done_flag j \<and> finished_at j > 0 \<and>
                  now - finished_at j > real JOB_RETENTION_SECONDS)"

definition cleanup_old_jobs :: "real \<Rightarrow> registry \<Rightarrow> registry" where
  "cleanup_old_jobs now JOBS = (\<lambda>jid. if expired now JOBS jid then None else JOBS jid)"

text \<open>
  \<open>get_artifact\<close>: the containment test compares the two paths as strings with
  \<open>startswith\<close>; the file system is read by \<open>is_file\<close> only after that test.
\<close>

definition get_artifact :: "registry \<Rightarrow> fs \<Rightarrow> string \<Rightarrow> string \<Rightarrow> http_error + path" where
  "get_artifact JOBS f jid p =
     (case JOBS jid of
        None \<Rightarrow> Inl (HTTPException 404 ''Job not found'')
      | Some j \<Rightarrow>
          (let candidate = resolve (joinpath (output_dir j) p)
           in if \<not> startswith (str_abs candidate) (str_abs (resolve (output_dir j)))
              then Inl (HTTPException 400 ''Invalid path'')
              else if candidate \<notin> files f then Inl (HTTPException 404 ''File not found'')
              else Inr candidate))"

text \<open>A path lies under a directory when the directory's components are a prefix of its own.\<close>

definition under :: "path \<Rightarrow> path \<Rightarrow> bool" where
  "under p d = (take (length d) p = d)"

text \<open>
  \<open>stream_events\<close>. A frame of the stream is an event with its data, or the keep-alive
  comment. The generator reads its queue with a wait of ten seconds: an item of the feed
  is a message, or an expired wait together with the value of \<open>done\<close> read after it.
  The replay iterates over the set \<open>seen\<close>; \<open>order\<close> is the order of that iteration.
\<close>

datatype sse = Frame string payload | Keepalive

datatype feed = Got msg | Wait_expired bool

definition replay :: "string list \<Rightarrow> job \<Rightarrow> sse list" where
  "replay order j =
     map (\<lambda>rel_path. Frame ''artifact''
            (artifact_data (classify_artifact rel_path) (path_name (split_path rel_path))
               rel_path (job_id j @ ''/'' @ rel_path))) order @
     [Frame ''status'' (exit_data j)]"

text \<open>The live loop: the frames it yields, and whether it has ended the stream.\<close>

fun live_stream :: "feed list \<Rightarrow> sse list \<times> bool" where
  "live_stream [] = ([], False)"
| "live_stream (Wait_expired d # items) =
     (if d then ([], True)
      else (Keepalive # fst (live_stream items), snd (live_stream items)))"
| "live_stream (Got m # items) =
     (if event m = ''close'' then ([], True)
      else (Frame (event m) (data m) # fst (live_stream items), snd (live_stream items)))"

definition event_stream :: "string list \<Rightarrow> feed list \<Rightarrow> job \<Rightarrow> sse list \<times> bool" where
  "event_stream order items j =
     (if done_flag j then (replay order j, True) else live_stream items)"

text \<open>
  The handler subscribes, runs the generator and, when the stream has ended,
  unsubscribes; it answers with the frames, whether the stream has ended, and the job.
\<close>

definition stream_events ::
  "registry \<Rightarrow> string \<Rightarrow> string list \<Rightarrow> feed list \<Rightarrow> http_error + (sse list \<times> bool \<times> job)" where
  "stream_events JOBS jid order items =
     (case JOBS jid of
        None \<Rightarrow> Inl (HTTPException 404 ''Job not found'')
      | Some j \<Rightarrow>
          (let (aq, j1) = subscribe j;
               (frames, ended) = event_stream order items j1
           in Inr (frames, ended, if ended then unsubscribe aq j1 else j1)))"

section \<open>Observations used in the statements\<close>

text \<open>Fields of a message and of a frame.\<close>

definition msg_path :: "msg \<Rightarrow> jval option" where
  "msg_path m = map_of (data m) ''path''"

definition msg_kind :: "msg \<Rightarrow> jval option" where
  "msg_kind m = map_of (data m) ''kind''"

fun frame_event :: "sse \<Rightarrow> string option" where
  "frame_event (Frame ev d) = Some ev"
| "frame_event Keepalive = None"

fun frame_field :: "string \<Rightarrow> sse \<Rightarrow> jval option" where
  "frame_field k (Frame ev d) = map_of d k"
| "frame_field k Keepalive = None"

text \<open>
  \<open>scanned j j'\<close>: the queue of \<open>j'\<close> extends that of \<open>j\<close> by artifact events only, one for
  each path that \<open>seen\<close> has gained, each tagged by the classifier. \<open>same_frame j j'\<close>: the
  fields that identify the job are the same.
\<close>

definition scanned :: "job \<Rightarrow> job \<Rightarrow> bool" where
  "scanned j j' =
     (seen j \<subseteq> seen j' \<and>
      queue j' = queue j @ pushed j j' \<and>
      distinct (map msg_path (pushed j j')) \<and>
      set (map msg_path (pushed j j')) = (\<lambda>p. Some (JStr p)) ` (seen j' - seen j) \<and>
      (\<forall>m \<in> set (pushed j j'). event m = ''artifact'' \<and>
          (\<exists>p. msg_path m = Some (JStr p) \<and> msg_kind m = Some (JStr (classify_artifact p)))))"

text \<open>
  \<open>delivered j j'\<close>: the messages that the queue of \<open>j'\<close> has gained over that of \<open>j\<close> have
  been scheduled, in the same order, for every subscriber of \<open>j\<close>, and the subscribers are
  the same.
\<close>

definition delivered :: "job \<Rightarrow> job \<Rightarrow> bool" where
  "delivered j j' =
     (queue j' = queue j @ pushed j j' \<and>
      subscribers j' = map (\<lambda>(h, q). (h, q @ pushed j j')) (subscribers j))"

definition same_frame :: "job \<Rightarrow> job \<Rightarrow> bool" where
  "same_frame j j' =
     (job_id j' = job_id j \<and> output_dir j' = output_dir j \<and> log_path j' = log_path j \<and>
      started_at j' = started_at j \<and> finished_at j' = finished_at j \<and>
      done_flag j' = done_flag j \<and> map fst (subscribers j') = map fst (subscribers j))"

text \<open>The artifact event for the run log of a job made by \<open>new_job\<close>, and the first event.\<close>

definition run_log_msg :: "string \<Rightarrow> msg" where
  "run_log_msg jid =
     Msg ''artifact'' (artifact_data ''log'' ''run.log'' ''run.log'' (jid @ ''/run.log''))"

definition started_msg :: msg where
  "started_msg = Msg ''status'' [(''state'', JStr ''started'')]"

text \<open>
  The order of events as the claim about the bus words it: one started status, then log
  and artifact events, then one finished status, then the artifact event of the run log,
  then the close event, and nothing after it.
\<close>

definition claimed_order :: "msg list \<Rightarrow> bool" where
  "claimed_order bus =
     (case bus of
        [] \<Rightarrow> False
      | m # rest \<Rightarrow>
          m = started_msg \<and> 3 \<le> length rest \<and>
          list_all (\<lambda>x. event x = ''log'' \<or> event x = ''artifact'') (take (length rest - 3) rest) \<and>
          (case drop (length rest - 3) rest of
             [fin, art, cl] \<Rightarrow>
               event fin = ''status'' \<and> map_of (data fin) ''state'' = Some (JStr ''finished'') \<and>
               event art = ''artifact'' \<and> msg_kind art = Some (JStr ''log'') \<and>
               event cl = ''close''
           | _ \<Rightarrow> False))"

text \<open>A frame that announces an artifact of kind \<open>log\<close>.\<close>

definition is_log_artifact :: "sse \<Rightarrow> bool" where
  "is_log_artifact f =
     (frame_event f = Some ''artifact'' \<and> frame_field ''kind'' f = Some (JStr ''log''))"

text \<open>
  The messages a subscriber reads from its queue, and the frames of a stream without the
  keep-alive comments.
\<close>

definition frames_sent :: "sse list \<Rightarrow> sse list" where
  "frames_sent fs = filter (\<lambda>f. f \<noteq> Keepalive) fs"

definition frame_of :: "msg \<Rightarrow> sse" where
  "frame_of m = Frame (event m) (data m)"


fun gots :: "feed list \<Rightarrow> msg list" where
  "gots [] = []"
| "gots (Got m # items) = m # gots items"
| "gots (Wait_expired d # items) = gots items"

section \<open>Example inputs\<close>

definition empty_fs :: fs where
  "empty_fs = \<lparr>files = {}, dirs = Map.empty\<rparr>"

definition job0 :: job where
  "job0 = new_job [''srv'', ''outputs''] ''20240101_000000_0a1b2c3d'' 0"

definition alive_obs :: "real \<Rightarrow> obs" where
  "alive_obs t = \<lparr>obs_fs = empty_fs, obs_now = t, obs_exit = None, obs_wait = Some (- 15)\<rparr>"

definition exited_obs :: "real \<Rightarrow> int \<Rightarrow> obs" where
  "exited_obs t c = \<lparr>obs_fs = empty_fs, obs_now = t, obs_exit = Some c, obs_wait = Some c\<rparr>"

text \<open>
  A run in which the subprocess is still alive after 601 seconds and exits on the
  termination signal within the grace period; the first cycle ends the loop.
\<close>

definition timeout_env :: env where
  "timeout_env =
     \<lparr>cycles = [alive_obs 601, alive_obs 602, alive_obs 603, alive_obs 604],
      final_fs = empty_fs, final_stderr = [], final_now = 606\<rparr>"

text \<open>A run in which the subprocess has exited with code 0 when the monitor first polls.\<close>

definition exit_env :: env where
  "exit_env =
     \<lparr>cycles = [exited_obs 1 0, exited_obs 2 0, exited_obs 3 0, exited_obs 4 0],
      final_fs = empty_fs, final_stderr = [], final_now = 5\<rparr>"

text \<open>
  A file system in which the output directory of \<open>job0\<close> holds the figure and an icons
  directory with one icon and one other file, and the two events the scanner publishes.
\<close>

definition figure_fs :: fs where
  "figure_fs =
     \<lparr>files = {output_dir job0 @ [''figure.png''], output_dir job0 @ [''icons'', ''icon_1.png'']},
      dirs = [output_dir job0 @ [''icons''] \<mapsto> [''icon_1.png'', ''notes.txt'']]\<rparr>"

definition figure_msg :: msg where
  "figure_msg = Msg ''artifact''
     (artifact_data ''figure'' ''figure.png'' ''figure.png'' (job_id job0 @ ''/figure.png''))"

definition icon_msg :: msg where
  "icon_msg = Msg ''artifact''
     (artifact_data ''icon_raw'' ''icon_1.png'' ''icons/icon_1.png'' (job_id job0 @ ''/icons/icon_1.png''))"

text \<open>A finished job that has seen two artifacts and exited with code 1.\<close>

definition done_job :: job where
  "done_job = job0\<lparr>process := \<lparr>returncode = Some 1, signals = []\<rparr>,
     seen := {''figure.png'', ''final.svg''}, done_flag := True, last_stderr := ''boom'',
     finished_at := 50\<rparr>"

text \<open>A log event of a line that the drain thread of the output stream reads late.\<close>

definition late_log :: msg where
  "late_log = Msg ''log'' [(''stream'', JStr ''stdout''), (''line'', JStr ''bye'')]"

text \<open>
  In the run \<open>exit_env\<close>: the terminal status event, the order in which the late line is
  pushed between the terminal status and the artifact event of the run log, and the job
  when the monitor has pushed the artifact event of the run log and has not yet stored the
  clock and set \<open>done\<close>.
\<close>

definition exit_finished :: msg where
  "exit_finished = Msg ''status'' [(''state'', JStr ''finished''), (''code'', JInt 0)]"

definition log_before_artifact :: "msg list" where
  "log_before_artifact =
     [started_msg, exit_finished, late_log, run_log_msg (job_id job0), Msg ''close'' []]"

definition after_log_push :: job where
  "after_log_push = monitor_states exit_env job0 ! 8"

text \<open>
  What a subscriber attached from submission reads in the run \<open>timeout_env\<close> when the
  subprocess writes nothing: the started event, sixty waits of ten seconds that expire
  while the job runs, and a wait that expires when the monitor has just set \<open>done\<close>, the
  messages of the final part being scheduled for its queue and not yet in it.
\<close>

definition silent_feed :: "feed list" where
  "silent_feed = Got started_msg # replicate 60 (Wait_expired False) @ [Wait_expired True]"

text \<open>
  A directory beside the output directory of \<open>job0\<close> whose name extends the job's
  identifier, holding one file.
\<close>

definition sibling_file :: path where
  "sibling_file = [''srv'', ''outputs'', ''20240101_000000_0a1b2c3d_old'', ''secret.txt'']"

definition sibling_fs :: fs where
  "sibling_fs = \<lparr>files = {sibling_file}, dirs = Map.empty\<rparr>"

definition sibling_request :: string where
  "sibling_request = ''../20240101_000000_0a1b2c3d_old/secret.txt''"

text \<open>A registry at time 10000: one job finished at 100, one at 9000, one still running.\<close>

definition old_job :: job where
  "old_job = (new_job [''srv'', ''outputs''] ''a'' 0)\<lparr>finished_at := 100, done_flag := True\<rparr>"

definition recent_job :: job where
  "recent_job = (new_job [''srv'', ''outputs''] ''b'' 8000)\<lparr>finished_at := 9000, done_flag := True\<rparr>"

definition running_job :: job where
  "running_job = new_job [''srv'', ''outputs''] ''c'' 9500"

definition example_registry :: registry where
  "example_registry = [''a'' \<mapsto> old_job, ''b'' \<mapsto> recent_job, ''c'' \<mapsto> running_job]"

section \<open>Properties of the classifier\<close>

lemma svg_names_not_png:
  "\<not> endswith ''template.svg'' ''_nobg.png''"
  "\<not> endswith ''template.svg'' ''.png''"
  "\<not> endswith ''optimized_template.svg'' ''_nobg.png''"
  "\<not> endswith ''optimized_template.svg'' ''.png''"
  "\<not> endswith ''final.svg'' ''_nobg.png''"
  "\<not> endswith ''final.svg'' ''.png''"
  by (simp_all add: endswith_def)

lemma classify_artifact_in_tags: "classify_artifact p \<in> set kind_tags"
  by (simp add: classify_artifact_def kind_tags_def)

lemma kind_not_log: "classify_artifact p \<noteq> ''log''"
  using classify_artifact_in_tags [of p] by (auto simp add: kind_tags_def)

text \<open>
  Claim C9. The classifier is a total function into the closed set of eight kind tags, and
  it agrees on every path with the reading in which the five exact file names are tried
  before the suffix and prefix patterns and everything unmatched is tagged \<open>artifact\<close>.
\<close>

theorem C9_classify_exact_names_first:
  "classify_artifact p = classify_spec p \<and> classify_artifact p \<in> set kind_tags"
proof -
  have "classify_artifact p = classify_spec p"
    unfolding classify_artifact_def classify_spec_def
    using svg_names_not_png by auto
  moreover have "classify_artifact p \<in> set kind_tags"
    by (rule classify_artifact_in_tags)
  ultimately show ?thesis ..
qed

section \<open>Properties of the scanner\<close>

lemma push_fields [simp]:
  "queue (push ev d j) = queue j @ [Msg ev d]"
  "seen (push ev d j) = seen j"
  "job_id (push ev d j) = job_id j"
  "output_dir (push ev d j) = output_dir j"
  "log_path (push ev d j) = log_path j"
  "process (push ev d j) = process j"
  "started_at (push ev d j) = started_at j"
  "finished_at (push ev d j) = finished_at j"
  "done_flag (push ev d j) = done_flag j"
  "last_stderr (push ev d j) = last_stderr j"
  "map fst (subscribers (push ev d j)) = map fst (subscribers j)"
  by (simp_all add: push_def case_prod_beta comp_def)

lemma scanned_refl: "scanned j j"
  by (simp add: scanned_def pushed_def)

lemma pushed_append: "queue j' = queue j @ ms \<Longrightarrow> pushed j j' = ms"
  by (simp add: pushed_def)

lemma scanned_trans:
  assumes "scanned j0 j1" and "scanned j1 j2"
  shows "scanned j0 j2"
proof -
  let ?a = "pushed j0 j1" and ?b = "pushed j1 j2"
  have q: "queue j2 = queue j0 @ ?a @ ?b"
    using assms by (simp add: scanned_def)
  then have p: "pushed j0 j2 = ?a @ ?b"
    by (rule pushed_append)
  have sa: "set (map msg_path ?a) = (\<lambda>p. Some (JStr p)) ` (seen j1 - seen j0)"
    and sb: "set (map msg_path ?b) = (\<lambda>p. Some (JStr p)) ` (seen j2 - seen j1)"
    using assms by (simp_all add: scanned_def)
  have sub: "seen j0 \<subseteq> seen j1" "seen j1 \<subseteq> seen j2"
    using assms by (simp_all add: scanned_def)
  have disj: "set (map msg_path ?a) \<inter> set (map msg_path ?b) = {}"
    unfolding sa sb by auto
  have d: "distinct (map msg_path (?a @ ?b))"
    using assms disj by (simp add: scanned_def)
  have s: "set (map msg_path (?a @ ?b)) = (\<lambda>p. Some (JStr p)) ` (seen j2 - seen j0)"
  proof -
    have "seen j2 - seen j0 = (seen j1 - seen j0) \<union> (seen j2 - seen j1)"
      using sub by auto
    then show ?thesis
      using sa sb by (simp add: image_Un)
  qed
  have e: "\<forall>m \<in> set (?a @ ?b). event m = ''artifact'' \<and>
          (\<exists>p. msg_path m = Some (JStr p) \<and> msg_kind m = Some (JStr (classify_artifact p)))"
    using assms by (auto simp add: scanned_def)
  show ?thesis
    unfolding scanned_def p using q d s e sub by auto
qed

lemma same_frame_refl: "same_frame j j"
  by (simp add: same_frame_def)

lemma same_frame_trans: "same_frame j0 j1 \<Longrightarrow> same_frame j1 j2 \<Longrightarrow> same_frame j0 j2"
  by (simp add: same_frame_def)

lemma scan_one_scanned: "scanned j (scan_one f rel j)"
  by (auto simp add: scan_one_def scanned_def pushed_def Let_def msg_path_def msg_kind_def artifact_data_def)

lemma scan_one_frame: "same_frame j (scan_one f rel j)"
  by (simp add: scan_one_def same_frame_def Let_def)

lemma scan_one_process: "process (scan_one f rel j) = process j" "last_stderr (scan_one f rel j) = last_stderr j"
  by (simp_all add: scan_one_def Let_def)

lemma fold_scan_one:
  "scanned j (fold (scan_one f) rels j) \<and> same_frame j (fold (scan_one f) rels j) \<and>
   process (fold (scan_one f) rels j) = process j \<and> last_stderr (fold (scan_one f) rels j) = last_stderr j"
proof (induction rels arbitrary: j)
  case Nil
  show ?case by (simp add: scanned_refl same_frame_refl)
next
  case (Cons rel rels)
  show ?case
    using Cons.IH [of "scan_one f rel j"] scan_one_scanned [of j f rel] scan_one_frame [of j f rel]
    by (auto intro: scanned_trans same_frame_trans simp add: scan_one_process)
qed

lemma scan_artifacts_scanned: "scanned j (scan_artifacts f j)"
  and scan_artifacts_frame: "same_frame j (scan_artifacts f j)"
  and scan_artifacts_process [simp]: "process (scan_artifacts f j) = process j"
  and scan_artifacts_stderr [simp]: "last_stderr (scan_artifacts f j) = last_stderr j"
  using fold_scan_one [of j f] by (simp_all add: scan_artifacts_def)

lemma scans_scanned: "scanned j (fold scan_artifacts fss j)"
proof (induction fss arbitrary: j)
  case Nil
  show ?case by (simp add: scanned_refl)
next
  case (Cons f fss)
  have "scanned j (scan_artifacts f j)"
    by (rule scan_artifacts_scanned)
  moreover have "scanned (scan_artifacts f j) (fold scan_artifacts fss (scan_artifacts f j))"
    by (rule Cons.IH)
  ultimately show ?case
    by (simp add: scanned_trans)
qed

lemma scan_one_known:
  "output_dir j @ rel \<in> files f \<longrightarrow> as_posix rel \<in> seen j \<Longrightarrow> scan_one f rel j = j"
  by (auto simp add: scan_one_def Let_def)

lemma fold_scan_one_known:
  "\<forall>rel \<in> set rels. output_dir j @ rel \<in> files f \<longrightarrow> as_posix rel \<in> seen j \<Longrightarrow>
     fold (scan_one f) rels j = j"
  by (induction rels) (simp_all add: scan_one_known)

lemma fold_scan_one_covers:
  "rel \<in> set rels \<Longrightarrow> output_dir j @ rel \<in> files f \<Longrightarrow>
     as_posix rel \<in> seen (fold (scan_one f) rels j)"
proof (induction rels arbitrary: j)
  case Nil
  then show ?case by simp
next
  case (Cons r rels)
  let ?j1 = "scan_one f r j"
  have out: "output_dir ?j1 = output_dir j"
    using scan_one_frame [of j f r] by (simp add: same_frame_def)
  show ?case
  proof (cases "rel \<in> set rels")
    case True
    then show ?thesis
      using Cons.IH [of ?j1] Cons.prems(2) out by simp
  next
    case False
    then have "rel = r"
      using Cons.prems(1) by simp
    then have "as_posix rel \<in> seen ?j1"
      using Cons.prems(2) by (simp add: scan_one_def Let_def)
    moreover have "seen ?j1 \<subseteq> seen (fold (scan_one f) rels ?j1)"
      using fold_scan_one [of ?j1 f rels] by (simp add: scanned_def)
    ultimately show ?thesis
      by auto
  qed
qed

lemma scan_artifacts_idem: "scan_artifacts f (scan_artifacts f j) = scan_artifacts f j"
proof -
  let ?j1 = "scan_artifacts f j"
  have out: "output_dir ?j1 = output_dir j"
    using scan_artifacts_frame [of j f] by (simp add: same_frame_def)
  have "\<forall>rel \<in> set (candidates f (output_dir j)).
          output_dir ?j1 @ rel \<in> files f \<longrightarrow> as_posix rel \<in> seen ?j1"
    using fold_scan_one_covers [of _ "candidates f (output_dir j)" j f] out
    by (simp add: scan_artifacts_def)
  then have "fold (scan_one f) (candidates f (output_dir j)) ?j1 = ?j1"
    by (rule fold_scan_one_known)
  then show ?thesis
    using out by (simp add: scan_artifacts_def [of f ?j1])
qed

lemma candidates_not_run_log: "rel \<in> set (candidates f out) \<Longrightarrow> as_posix rel \<noteq> ''run.log''"
  by (auto simp add: candidates_def split: option.splits)

lemma fold_scan_one_no_run_log:
  "set rels \<subseteq> set (candidates f out) \<Longrightarrow> ''run.log'' \<notin> seen j \<Longrightarrow>
     ''run.log'' \<notin> seen (fold (scan_one f) rels j)"
proof (induction rels arbitrary: j)
  case Nil
  then show ?case by simp
next
  case (Cons rel rels)
  have "as_posix rel \<noteq> ''run.log''"
    using Cons.prems(1) candidates_not_run_log [of rel f out] by simp
  then have "''run.log'' \<notin> seen (scan_one f rel j)"
    using Cons.prems(2) by (simp add: scan_one_def Let_def)
  then show ?case
    using Cons.IH [of "scan_one f rel j"] Cons.prems(1) by simp
qed

lemma scan_artifacts_no_run_log:
  "''run.log'' \<notin> seen j \<Longrightarrow> ''run.log'' \<notin> seen (scan_artifacts f j)"
  using fold_scan_one_no_run_log [of "candidates f (output_dir j)" f "output_dir j" j]
  by (simp add: scan_artifacts_def)

lemma scans_no_run_log:
  "''run.log'' \<notin> seen j \<Longrightarrow> ''run.log'' \<notin> seen (fold scan_artifacts fss j)"
  by (induction fss arbitrary: j) (simp_all add: scan_artifacts_no_run_log)

lemma scan_artifacts_empty_fs [simp]: "scan_artifacts empty_fs j = j"
  by (simp add: scan_artifacts_def candidates_def scan_one_def empty_fs_def)

lemma figure_scan:
  "scan_artifacts figure_fs job0 =
     job0\<lparr>queue := [figure_msg, icon_msg], seen := {''figure.png'', ''icons/icon_1.png''}\<rparr>"
  by (simp add: scan_artifacts_def candidates_def figure_fs_def job0_def new_job_def scan_one_def
      glob_icon_def startswith_def endswith_def classify_artifact_def path_name_def push_def
      figure_msg_def icon_msg_def Let_def insert_commute)

lemma delivered_refl: "delivered j j"
  by (simp add: delivered_def pushed_def case_prod_beta)

lemma delivered_trans:
  assumes "delivered j0 j1" and "delivered j1 j2"
  shows "delivered j0 j2"
proof -
  have q: "queue j2 = queue j0 @ pushed j0 j1 @ pushed j1 j2"
    using assms by (simp add: delivered_def)
  then have p: "pushed j0 j2 = pushed j0 j1 @ pushed j1 j2"
    by (rule pushed_append)
  have "subscribers j2 = map (\<lambda>(h, q). (h, q @ pushed j1 j2))
      (map (\<lambda>(h, q). (h, q @ pushed j0 j1)) (subscribers j0))"
    using assms by (simp add: delivered_def)
  then show ?thesis
    unfolding delivered_def p using q by (simp add: case_prod_beta comp_def)
qed

lemma push_delivered: "delivered j (push ev d j)"
  by (simp add: delivered_def pushed_def push_def)

lemma delivered_fields [simp]:
  "delivered j (j'\<lparr>process := p\<rparr>) = delivered j j'"
  "delivered j (j'\<lparr>last_stderr := x\<rparr>) = delivered j j'"
  "delivered j (j'\<lparr>finished_at := t\<rparr>) = delivered j j'"
  "delivered j (j'\<lparr>done_flag := b\<rparr>) = delivered j j'"
  "delivered j (j'\<lparr>seen := sn\<rparr>) = delivered j j'"
  by (simp_all add: delivered_def pushed_def)

lemma delivered_seen_left: "delivered (j\<lparr>seen := sn\<rparr>) j' = delivered j j'"
  by (simp add: delivered_def pushed_def)

lemma scan_one_delivered: "delivered j (scan_one f rel j)"
  using push_delivered [of "j\<lparr>seen := insert (as_posix rel) (seen j)\<rparr>"]
  by (simp add: scan_one_def Let_def delivered_refl delivered_seen_left)

lemma fold_scan_one_delivered: "delivered j (fold (scan_one f) rels j)"
proof (induction rels arbitrary: j)
  case Nil
  show ?case by (simp add: delivered_refl)
next
  case (Cons rel rels)
  show ?case
    using scan_one_delivered [of j f rel] Cons.IH [of "scan_one f rel j"]
    by (auto intro: delivered_trans)
qed

lemma scan_artifacts_delivered: "delivered j (scan_artifacts f j)"
  by (simp add: scan_artifacts_def fold_scan_one_delivered)

section \<open>Properties of the monitor loop\<close>

lemma scanned_process [simp]: "scanned j (j'\<lparr>process := p\<rparr>) = scanned j j'"
  by (simp add: scanned_def pushed_def)

lemma same_frame_process [simp]: "same_frame j (j'\<lparr>process := p\<rparr>) = same_frame j j'"
  by (simp add: same_frame_def)

lemma monitor_cycle_props:
  "monitor_cycle ob j = Timed_out j' \<or> monitor_cycle ob j = Polled b j' \<Longrightarrow>
     scanned j j' \<and> same_frame j j'"
  by (auto simp add: monitor_cycle_def Let_def scan_artifacts_scanned scan_artifacts_frame
      split: if_splits)

lemma monitor_loop_props:
  "monitor_loop obss idle j = Some (t, j') \<Longrightarrow> scanned j j' \<and> same_frame j j'"
proof (induction obss arbitrary: idle j)
  case Nil
  then show ?case by simp
next
  case (Cons ob obss)
  show ?case
  proof (cases "monitor_cycle ob j")
    case (Timed_out j1)
    then show ?thesis
      using Cons.prems monitor_cycle_props [of ob j j1] by simp
  next
    case (Polled exited j1)
    have step: "scanned j j1 \<and> same_frame j j1"
      using Polled monitor_cycle_props [of ob j j1 exited] by simp
    show ?thesis
    proof (cases "4 \<le> (if exited then idle + 1 else 0)")
      case True
      then show ?thesis
        using Cons.prems Polled step by (simp add: Let_def)
    next
      case False
      then have "monitor_loop obss (if exited then idle + 1 else 0) j1 = Some (t, j')"
        using Cons.prems Polled by (simp add: Let_def)
      then have "scanned j1 j' \<and> same_frame j1 j'"
        by (rule Cons.IH)
      then show ?thesis
        using step by (blast intro: scanned_trans same_frame_trans)
    qed
  qed
qed

lemma same_frame_started: "same_frame j j' \<Longrightarrow> started_at j' = started_at j"
  by (simp add: same_frame_def)

lemma monitor_cycle_seen:
  "monitor_cycle ob j = Timed_out j' \<or> monitor_cycle ob j = Polled b j' \<Longrightarrow>
     seen j' = seen (scan_artifacts (obs_fs ob) j)"
  by (auto simp add: monitor_cycle_def Let_def split: if_splits)

lemma monitor_loop_no_run_log:
  "monitor_loop obss idle j = Some (t, j') \<Longrightarrow> ''run.log'' \<notin> seen j \<Longrightarrow> ''run.log'' \<notin> seen j'"
proof (induction obss arbitrary: idle j)
  case Nil
  then show ?case by simp
next
  case (Cons ob obss)
  show ?case
  proof (cases "monitor_cycle ob j")
    case (Timed_out j1)
    then have "j' = j1"
      using Cons.prems(1) by simp
    then show ?thesis
      using Timed_out monitor_cycle_seen [of ob j j'] Cons.prems(2) scan_artifacts_no_run_log
      by simp
  next
    case (Polled exited j1)
    have s: "''run.log'' \<notin> seen j1"
      using Polled monitor_cycle_seen [of ob j j1 exited] Cons.prems(2) scan_artifacts_no_run_log
      by simp
    show ?thesis
    proof (cases "4 \<le> (if exited then idle + 1 else 0)")
      case True
      then have "j' = j1"
        using Cons.prems(1) Polled by (simp add: Let_def)
      then show ?thesis using s by simp
    next
      case False
      then have "monitor_loop obss (if exited then idle + 1 else 0) j1 = Some (t, j')"
        using Cons.prems(1) Polled by (simp add: Let_def)
      then show ?thesis
        using s by (rule Cons.IH)
    qed
  qed
qed

lemma last4_Cons:
  assumes "4 \<le> length r"
  shows "drop (length (x # r) - 4) (x # r) = drop (length r - 4) r"
proof -
  have "length (x # r) - 4 = Suc (length r - 4)"
    using assms by simp
  then show ?thesis
    by (simp only: drop_Suc_Cons)
qed

lemma last4_replicate:
  assumes "4 \<le> length r" and "r = replicate (length r) True"
  shows "drop (length r - 4) r = [True, True, True, True]"
proof -
  have "length r - (length r - 4) = 4"
    using assms(1) by arith
  then have "drop (length r - 4) (replicate (length r) True) = replicate 4 True"
    by simp
  then show ?thesis
    using assms(2) by (simp add: numeral_eq_Suc)
qed

lemma poll_reports_exit:
  "monitor_loop obss idle j = Some (False, j') \<Longrightarrow>
     (4 \<le> length (poll_reports obss idle j) \<and>
      drop (length (poll_reports obss idle j) - 4) (poll_reports obss idle j) = [True, True, True, True]) \<or>
     (4 \<le> length (poll_reports obss idle j) + idle \<and>
      poll_reports obss idle j = replicate (length (poll_reports obss idle j)) True)"
proof (induction obss arbitrary: idle j)
  case Nil
  then show ?case by simp
next
  case (Cons ob obss)
  show ?case
  proof (cases "monitor_cycle ob j")
    case (Timed_out j1)
    then show ?thesis using Cons.prems by simp
  next
    case (Polled exited j1)
    let ?idle = "if exited then idle + 1 else 0"
    show ?thesis
    proof (cases "4 \<le> ?idle")
      case True
      then have "exited" by (simp split: if_splits)
      then show ?thesis
        using True Polled by (simp add: Let_def)
    next
      case False
      let ?r = "poll_reports obss ?idle j1"
      have r: "poll_reports (ob # obss) idle j = exited # ?r"
        using False Polled by (simp add: Let_def)
      have "monitor_loop obss ?idle j1 = Some (False, j')"
        using Cons.prems Polled False by (simp add: Let_def)
      then have ih: "(4 \<le> length ?r \<and> drop (length ?r - 4) ?r = [True, True, True, True]) \<or>
          (4 \<le> length ?r + ?idle \<and> ?r = replicate (length ?r) True)"
        by (rule Cons.IH)
      then show ?thesis
      proof
        assume a: "4 \<le> length ?r \<and> drop (length ?r - 4) ?r = [True, True, True, True]"
        then have "drop (length (exited # ?r) - 4) (exited # ?r) = [True, True, True, True]"
          using last4_Cons [of ?r exited] by simp
        moreover have "4 \<le> length (exited # ?r)"
          using a by simp
        ultimately show ?thesis
          unfolding r by blast
      next
        assume b: "4 \<le> length ?r + ?idle \<and> ?r = replicate (length ?r) True"
        show ?thesis
        proof (cases exited)
          case True
          then have "exited # ?r = replicate (length (exited # ?r)) True"
            using b by simp
          moreover have "4 \<le> length (exited # ?r) + idle"
            using b True by simp
          ultimately show ?thesis
            unfolding r by blast
        next
          case False
          then have l: "4 \<le> length ?r" using b by simp
          have "drop (length ?r - 4) ?r = [True, True, True, True]"
            using l b by (intro last4_replicate) simp_all
          then have "drop (length (exited # ?r) - 4) (exited # ?r) = [True, True, True, True]"
            using last4_Cons [OF l, of exited] by simp
          moreover have "4 \<le> length (exited # ?r)"
            using l by simp
          ultimately show ?thesis
            unfolding r by blast
        qed
      qed
    qed
  qed
qed

lemma loop_ends_when_exited:
  "returncode (process j) \<noteq> None \<Longrightarrow> idle < 4 \<Longrightarrow> 4 \<le> idle + length obss \<Longrightarrow>
     \<exists>j'. monitor_loop obss idle j = Some (False, j')"
proof (induction obss arbitrary: idle j)
  case Nil
  then show ?case by simp
next
  case (Cons ob obss)
  let ?j1 = "(scan_artifacts (obs_fs ob) j)\<lparr>process := process j\<rparr>"
  have c: "monitor_cycle ob j = Polled True ?j1"
    using Cons.prems(1) by (auto simp add: monitor_cycle_def Let_def poll_def)
  show ?case
  proof (cases "4 \<le> idle + 1")
    case True
    then show ?thesis using c by simp
  next
    case False
    have "\<exists>j'. monitor_loop obss (idle + 1) ?j1 = Some (False, j')"
      using Cons.prems False by (intro Cons.IH) simp_all
    then show ?thesis
      using c False by simp
  qed
qed

lemma loop_ends:
  "n + 4 \<le> length obss \<Longrightarrow> real JOB_TIMEOUT_SECONDS < obs_now (obss ! n) - started_at j \<Longrightarrow>
   idle < 4 \<Longrightarrow> \<exists>r. monitor_loop obss idle j = Some r"
proof (induction obss arbitrary: n idle j)
  case Nil
  then show ?case by simp
next
  case (Cons ob obss)
  show ?case
  proof (cases "monitor_cycle ob j")
    case (Timed_out j1)
    then show ?thesis by auto
  next
    case (Polled exited j1)
    let ?idle = "if exited then idle + 1 else 0"
    have st: "started_at j1 = started_at j"
      using Polled monitor_cycle_props [of ob j j1 exited] by (simp add: same_frame_def)
    show ?thesis
    proof (cases "4 \<le> ?idle")
      case True
      then show ?thesis using Polled by (auto simp add: Let_def)
    next
      case False
      then have idle: "?idle < 4" by simp
      show ?thesis
      proof (cases n)
        case 0
        then have late: "real JOB_TIMEOUT_SECONDS < obs_now ob - started_at j"
          using Cons.prems by simp
        have ex: "exited \<and> returncode (process j1) \<noteq> None"
          using Polled late
          by (auto simp add: monitor_cycle_def Let_def poll_def same_frame_started [OF scan_artifacts_frame] split: if_splits)
        have "4 \<le> ?idle + length obss"
          using Cons.prems(1) ex by simp
        then have "\<exists>j'. monitor_loop obss ?idle j1 = Some (False, j')"
          using ex idle by (intro loop_ends_when_exited) simp_all
        then show ?thesis
          using Polled False by (auto simp add: Let_def)
      next
        case (Suc k)
        have "\<exists>r. monitor_loop obss ?idle j1 = Some r"
        proof (rule Cons.IH [of k])
          show "k + 4 \<le> length obss" using Cons.prems(1) Suc by simp
          show "real JOB_TIMEOUT_SECONDS < obs_now (obss ! k) - started_at j1"
            using Cons.prems(2) Suc st by simp
          show "?idle < 4" by (rule idle)
        qed
        then show ?thesis
          using Polled False by (auto simp add: Let_def)
      qed
    qed
  qed
qed

lemma monitor_cycle_alive:
  "returncode (process j) = None \<Longrightarrow> t - started_at j \<le> real JOB_TIMEOUT_SECONDS \<Longrightarrow>
     monitor_cycle (alive_obs t) j = Polled False j"
  by (simp add: monitor_cycle_def alive_obs_def poll_def Let_def)

lemma monitor_cycle_exited:
  "returncode (process j) = None \<or> returncode (process j) = Some c \<Longrightarrow>
     monitor_cycle (exited_obs t c) j = Polled True (j\<lparr>process := (process j)\<lparr>returncode := Some c\<rparr>\<rparr>)"
  by (auto simp add: monitor_cycle_def exited_obs_def poll_def Let_def)

lemma exit_loop_any:
  "returncode (process j) = None \<Longrightarrow>
     monitor_loop (cycles exit_env) 0 j =
       Some (False, j\<lparr>process := (process j)\<lparr>returncode := Some 0\<rparr>\<rparr>)"
  by (simp add: exit_env_def monitor_cycle_exited)

text \<open>
  A relation between jobs that is transitive, holds across a scan and does not look at
  the subprocess handle holds between the job at the start of the loop and the job after
  every cycle, and so the job the loop ends with.
\<close>

lemma monitor_cycle_rel:
  assumes scan: "\<And>f j. R j (scan_artifacts f j)"
    and proc: "\<And>j j' p. R j j' \<Longrightarrow> R j (j'\<lparr>process := p\<rparr>)"
    and c: "monitor_cycle ob j = Timed_out j' \<or> monitor_cycle ob j = Polled b j'"
  shows "R j j'"
  using c scan [of j "obs_fs ob"] proc [of j "scan_artifacts (obs_fs ob) j"]
  by (auto simp add: monitor_cycle_def Let_def split: if_splits)

lemma monitor_loop_states_rel:
  assumes trans: "\<And>a b c. R a b \<Longrightarrow> R b c \<Longrightarrow> R a c"
    and scan: "\<And>f j. R j (scan_artifacts f j)"
    and proc: "\<And>j j' p. R j j' \<Longrightarrow> R j (j'\<lparr>process := p\<rparr>)"
  shows "s \<in> set (monitor_loop_states obss idle j) \<Longrightarrow> R j s"
proof (induction obss arbitrary: idle j)
  case Nil
  then show ?case by simp
next
  case (Cons ob obss)
  show ?case
  proof (cases "monitor_cycle ob j")
    case (Timed_out j1)
    then have "s = j1" using Cons.prems by simp
    then show ?thesis
      using monitor_cycle_rel [of R ob j s, OF scan proc] Timed_out by simp
  next
    case (Polled exited j1)
    have step: "R j j1"
      using monitor_cycle_rel [of R ob j j1 exited, OF scan proc] Polled by simp
    show ?thesis
    proof (cases "s = j1")
      case True
      then show ?thesis using step by simp
    next
      case False
      then have "s \<in> set (monitor_loop_states obss (if exited then idle + 1 else 0) j1)"
        using Cons.prems Polled by (simp add: Let_def split: if_splits)
      then have "R j1 s" by (rule Cons.IH)
      then show ?thesis using step trans by blast
    qed
  qed
qed

lemma monitor_loop_last_state:
  "monitor_loop obss idle j = Some (t, j') \<Longrightarrow>
     monitor_loop_states obss idle j \<noteq> [] \<and> last (monitor_loop_states obss idle j) = j'"
proof (induction obss arbitrary: idle j)
  case Nil
  then show ?case by simp
next
  case (Cons ob obss)
  show ?case
  proof (cases "monitor_cycle ob j")
    case (Timed_out j1)
    then show ?thesis using Cons.prems by simp
  next
    case (Polled exited j1)
    show ?thesis
    proof (cases "4 \<le> (if exited then idle + 1 else 0)")
      case True
      then show ?thesis using Cons.prems Polled by (simp add: Let_def)
    next
      case False
      then have "monitor_loop obss (if exited then idle + 1 else 0) j1 = Some (t, j')"
        using Cons.prems Polled by (simp add: Let_def)
      then have "monitor_loop_states obss (if exited then idle + 1 else 0) j1 \<noteq> [] \<and>
          last (monitor_loop_states obss (if exited then idle + 1 else 0) j1) = j'"
        by (rule Cons.IH)
      then show ?thesis
        using Polled False by (simp add: Let_def)
    qed
  qed
qed

lemma monitor_loop_delivered:
  assumes "monitor_loop obss idle j = Some (t, j')"
  shows "delivered j j'"
proof -
  have "j' \<in> set (monitor_loop_states obss idle j)"
    using monitor_loop_last_state [OF assms] last_in_set by blast
  then show ?thesis
    by (rule monitor_loop_states_rel [of delivered, rotated 3])
      (auto intro: delivered_trans scan_artifacts_delivered)
qed

lemma monitor_loop_states_not_done:
  assumes "s \<in> set (monitor_loop_states obss idle j)"
  shows "done_flag s = done_flag j"
proof -
  have "same_frame j s"
    using assms
    by (rule monitor_loop_states_rel [of same_frame, rotated 3])
      (auto intro: same_frame_trans scan_artifacts_frame)
  then show ?thesis by (simp add: same_frame_def)
qed

text \<open>
  Claim C6. When the loop leaves through the exit branch (not timed out), the exit-check
  polls of the cycles it ran number at least four and the last four of them all reported
  that the subprocess was not alive. A cycle whose poll reports the subprocess alive
  continues the loop with the counter at zero, whatever the counter was.
\<close>

theorem C6_debounced_exit:
  "(monitor_loop obss 0 j = Some (False, j') \<longrightarrow>
      4 \<le> length (poll_reports obss 0 j) \<and>
      drop (length (poll_reports obss 0 j) - 4) (poll_reports obss 0 j) = [True, True, True, True]) \<and>
   (monitor_cycle ob j = Polled False j1 \<longrightarrow>
      monitor_loop (ob # obss) idle j = monitor_loop obss 0 j1)"
proof (intro conjI impI)
  assume a: "monitor_loop obss 0 j = Some (False, j')"
  let ?r = "poll_reports obss 0 j"
  from poll_reports_exit [OF a]
  have "(4 \<le> length ?r \<and> drop (length ?r - 4) ?r = [True, True, True, True]) \<or>
        (4 \<le> length ?r + 0 \<and> ?r = replicate (length ?r) True)" .
  moreover have "4 \<le> length ?r \<and> drop (length ?r - 4) ?r = [True, True, True, True]"
    if b: "4 \<le> length ?r + 0 \<and> ?r = replicate (length ?r) True"
    using that last4_replicate [of ?r] by simp
  ultimately show "4 \<le> length ?r" and "drop (length ?r - 4) ?r = [True, True, True, True]"
    by blast+
next
  assume "monitor_cycle ob j = Polled False j1"
  then show "monitor_loop (ob # obss) idle j = monitor_loop obss 0 j1"
    by simp
qed

theorem C6_debounced_exit_witness:
  "monitor_loop (cycles exit_env) 0 job0 =
     Some (False, job0\<lparr>process := (process job0)\<lparr>returncode := Some 0\<rparr>\<rparr>) \<and>
   4 \<le> length (poll_reports (cycles exit_env) 0 job0) \<and>
   drop (length (poll_reports (cycles exit_env) 0 job0) - 4) (poll_reports (cycles exit_env) 0 job0) =
     [True, True, True, True] \<and>
   monitor_cycle (alive_obs 1) job0 = Polled False job0 \<and>
   monitor_loop (alive_obs 1 # cycles exit_env) 3 job0 = monitor_loop (cycles exit_env) 0 job0"
proof -
  have a: "monitor_cycle (alive_obs 1) job0 = Polled False job0"
    by (rule monitor_cycle_alive) (simp_all add: job0_def new_job_def JOB_TIMEOUT_SECONDS_def)
  have "returncode (process job0) = None"
    by (simp add: job0_def new_job_def)
  then have b: "monitor_loop (cycles exit_env) 0 job0 =
      Some (False, job0\<lparr>process := (process job0)\<lparr>returncode := Some 0\<rparr>\<rparr>)"
    by (rule exit_loop_any)
  show ?thesis
    using C6_debounced_exit [of "cycles exit_env" job0
        "job0\<lparr>process := (process job0)\<lparr>returncode := Some 0\<rparr>\<rparr>" "alive_obs 1" job0 3]
      a b
    by simp
qed

section \<open>Properties of the monitor\<close>

lemma scanned_stderr [simp]: "scanned j (j'\<lparr>last_stderr := x\<rparr>) = scanned j j'"
  by (simp add: scanned_def pushed_def)

lemma same_frame_stderr [simp]: "same_frame j (j'\<lparr>last_stderr := x\<rparr>) = same_frame j j'"
  by (simp add: same_frame_def)

lemma finalize_returned:
  assumes "finalize e t j = Returned j'"
  shows "\<exists>js fd rel. scanned j js \<and> same_frame j js \<and>
           relative_to (log_path j) (output_dir j) = Some rel \<and>
           map_of fd ''state'' = Some (JStr ''finished'') \<and>
           queue j' = queue js @
             [Msg ''status'' fd,
              Msg ''artifact'' (artifact_data ''log'' (path_name (log_path j)) (as_posix rel)
                 (job_id j @ ''/'' @ path_name (log_path j))),
              Msg ''close'' []] \<and>
           seen j' = seen js \<and> done_flag j' \<and> finished_at j' = final_now e \<and>
           job_id j' = job_id j \<and> output_dir j' = output_dir j \<and> log_path j' = log_path j \<and>
           process j' = process j \<and> last_stderr j' = final_stderr e"
proof -
  let ?js = "scan_artifacts (final_fs e) j"
  have f: "same_frame j ?js" and s: "scanned j ?js"
    by (rule scan_artifacts_frame, rule scan_artifacts_scanned)
  have eq: "log_path ?js = log_path j" "output_dir ?js = output_dir j" "job_id ?js = job_id j"
    using f by (simp_all add: same_frame_def)
  obtain rel where rel: "relative_to (log_path j) (output_dir j) = Some rel"
    using assms eq by (cases "relative_to (log_path j) (output_dir j)")
      (simp_all add: finalize_def Let_def)
  let ?fd = "if t then timeout_data else exit_data (?js\<lparr>last_stderr := final_stderr e\<rparr>)"
  have st: "map_of ?fd ''state'' = Some (JStr ''finished'')"
    by (simp add: timeout_data_def exit_data_def)
  have j': "j' = push ''close'' []
      ((push ''artifact'' (artifact_data ''log'' (path_name (log_path j)) (as_posix rel)
            (job_id j @ ''/'' @ path_name (log_path j)))
         (push ''status'' ?fd (?js\<lparr>last_stderr := final_stderr e\<rparr>)))
       \<lparr>finished_at := final_now e, done_flag := True\<rparr>)"
    using assms rel eq by (simp add: finalize_def Let_def)
  show ?thesis
    apply (rule exI [of _ ?js], rule exI [of _ ?fd], rule exI [of _ rel])
    using f s rel st eq unfolding j' by simp
qed

lemma finalize_seen:
  "finalize e t j = Returned j' \<Longrightarrow> seen j' = seen (scan_artifacts (final_fs e) j)"
  by (auto simp add: finalize_def Let_def split: option.splits)

lemma monitor_job_returned:
  assumes "monitor_job e j = Returned j'"
  shows "\<exists>js fd rel. scanned (push ''status'' [(''state'', JStr ''started'')] j) js \<and>
           relative_to (log_path j) (output_dir j) = Some rel \<and>
           map_of fd ''state'' = Some (JStr ''finished'') \<and>
           queue j' = queue js @
             [Msg ''status'' fd,
              Msg ''artifact'' (artifact_data ''log'' (path_name (log_path j)) (as_posix rel)
                 (job_id j @ ''/'' @ path_name (log_path j))),
              Msg ''close'' []] \<and>
           seen j' = seen js \<and> done_flag j' \<and> finished_at j' = final_now e \<and>
           job_id j' = job_id j \<and> output_dir j' = output_dir j \<and> log_path j' = log_path j"
proof -
  let ?start = "push ''status'' [(''state'', JStr ''started'')] j"
  obtain t j1 where loop: "monitor_loop (cycles e) 0 ?start = Some (t, j1)"
    and fin: "finalize e t j1 = Returned j'"
    using assms by (auto simp add: monitor_job_def split: option.splits)
  have 1: "scanned ?start j1" and f1: "same_frame ?start j1"
    using monitor_loop_props [OF loop] by simp_all
  from finalize_returned [OF fin] obtain js fd rel where
    2: "scanned j1 js" and r: "relative_to (log_path j1) (output_dir j1) = Some rel"
    and fd: "map_of fd ''state'' = Some (JStr ''finished'')"
    and q: "queue j' = queue js @
             [Msg ''status'' fd,
              Msg ''artifact'' (artifact_data ''log'' (path_name (log_path j1)) (as_posix rel)
                 (job_id j1 @ ''/'' @ path_name (log_path j1))),
              Msg ''close'' []]"
    and rest: "seen j' = seen js" "done_flag j'" "finished_at j' = final_now e"
      "job_id j' = job_id j1" "output_dir j' = output_dir j1" "log_path j' = log_path j1"
    by blast
  have eq: "log_path j1 = log_path j" "output_dir j1 = output_dir j" "job_id j1 = job_id j"
    using f1 by (simp_all add: same_frame_def)
  have "scanned ?start js"
    using 1 2 by (rule scanned_trans)
  then show ?thesis
    using r fd q rest unfolding eq by blast
qed

lemma monitor_job_returns:
  assumes "n + 4 \<le> length (cycles e)"
    and "real JOB_TIMEOUT_SECONDS < obs_now (cycles e ! n) - t0"
  shows "\<exists>j'. monitor_job e (new_job outputs jid t0) = Returned j'"
proof -
  let ?start = "push ''status'' [(''state'', JStr ''started'')] (new_job outputs jid t0)"
  have "started_at ?start = t0"
    by (simp add: new_job_def)
  then have "\<exists>r. monitor_loop (cycles e) 0 ?start = Some r"
    using assms by (intro loop_ends [of n]) simp_all
  then obtain t j1 where loop: "monitor_loop (cycles e) 0 ?start = Some (t, j1)"
    by auto
  have f1: "same_frame ?start j1"
    using monitor_loop_props [OF loop] by simp
  have f2: "same_frame j1 (scan_artifacts (final_fs e) j1)"
    by (rule scan_artifacts_frame)
  have "relative_to (log_path (scan_artifacts (final_fs e) j1)) (output_dir (scan_artifacts (final_fs e) j1))
      = Some [''run.log'']"
    using f1 f2 by (simp add: same_frame_def new_job_def relative_to_def)
  then have "\<exists>j'. finalize e t j1 = Returned j'"
    by (simp add: finalize_def Let_def)
  then show ?thesis
    using loop by (simp add: monitor_job_def)
qed

lemma monitor_job_no_run_log:
  assumes "monitor_job e j = Returned j'" and "''run.log'' \<notin> seen j"
  shows "''run.log'' \<notin> seen j'"
proof -
  obtain t j1 where loop: "monitor_loop (cycles e) 0 (push ''status'' [(''state'', JStr ''started'')] j) = Some (t, j1)"
    and fin: "finalize e t j1 = Returned j'"
    using assms(1) by (auto simp add: monitor_job_def split: option.splits)
  have "''run.log'' \<notin> seen j1"
    using loop assms(2) by (intro monitor_loop_no_run_log [OF loop]) simp
  then show ?thesis
    using finalize_seen [OF fin] scan_artifacts_no_run_log by simp
qed

text \<open>The queue of a job made by \<open>new_job\<close> when the monitor has returned.\<close>

lemma new_job_monitored:
  assumes "monitor_job e (new_job outputs jid t0) = Returned j'"
  shows "\<exists>arts fd. queue j' = started_msg # arts @ [Msg ''status'' fd, run_log_msg jid, Msg ''close'' []] \<and>
           map_of fd ''state'' = Some (JStr ''finished'') \<and>
           distinct (map msg_path arts) \<and>
           set (map msg_path arts) = (\<lambda>p. Some (JStr p)) ` seen j' \<and>
           (\<forall>m \<in> set arts. event m = ''artifact'' \<and>
              (\<exists>p. msg_path m = Some (JStr p) \<and> msg_kind m = Some (JStr (classify_artifact p)))) \<and>
           done_flag j' \<and> job_id j' = jid"
proof -
  let ?j = "new_job outputs jid t0"
  let ?start = "push ''status'' [(''state'', JStr ''started'')] ?j"
  from monitor_job_returned [OF assms] obtain js fd rel where
    sc: "scanned ?start js" and r: "relative_to (log_path ?j) (output_dir ?j) = Some rel"
    and fd: "map_of fd ''state'' = Some (JStr ''finished'')"
    and q: "queue j' = queue js @
             [Msg ''status'' fd,
              Msg ''artifact'' (artifact_data ''log'' (path_name (log_path ?j)) (as_posix rel)
                 (job_id ?j @ ''/'' @ path_name (log_path ?j))),
              Msg ''close'' []]"
    and rest: "seen j' = seen js" "done_flag j'" "job_id j' = job_id ?j"
    by (elim exE conjE) (rule that)
  have rel: "rel = [''run.log'']"
    using r by (simp add: new_job_def relative_to_def)
  have l: "Msg ''artifact'' (artifact_data ''log'' (path_name (log_path ?j)) (as_posix rel)
                 (job_id ?j @ ''/'' @ path_name (log_path ?j))) = run_log_msg jid"
    unfolding rel by (simp add: new_job_def path_name_def run_log_msg_def)
  let ?arts = "pushed ?start js"
  have q0: "queue ?start = [started_msg]" and s0: "seen ?start = {}"
    by (simp_all add: new_job_def started_msg_def)
  have "queue js = started_msg # ?arts"
    using sc q0 by (simp add: scanned_def)
  then have 1: "queue j' = started_msg # ?arts @ [Msg ''status'' fd, run_log_msg jid, Msg ''close'' []]"
    using q l by simp
  have 2: "distinct (map msg_path ?arts)"
    and 3: "set (map msg_path ?arts) = (\<lambda>p. Some (JStr p)) ` seen j'"
    and 4: "\<forall>m \<in> set ?arts. event m = ''artifact'' \<and>
              (\<exists>p. msg_path m = Some (JStr p) \<and> msg_kind m = Some (JStr (classify_artifact p)))"
    using sc s0 rest(1) by (simp_all add: scanned_def)
  have 5: "job_id j' = jid"
    using rest(3) by (simp add: new_job_def)
  show ?thesis
    using 1 fd 2 3 4 rest(2) 5 by blast
qed

lemma timeout_message_duration:
  "timeout_message \<noteq> [] \<and> contains timeout_message (str_nat (JOB_TIMEOUT_SECONDS div 60))"
proof -
  have e: "contains q []" for q
    by (cases q) (simp_all add: startswith_def)
  have "contains (p @ s @ q) s" for p s q :: string
  proof (induction p)
    case Nil
    show ?case using e by (cases s) (simp_all add: startswith_def)
  next
    case (Cons c p)
    then show ?case by simp
  qed
  moreover have "timeout_message \<noteq> []"
    by (simp add: timeout_message_def timeout_prefix_def)
  ultimately show ?thesis
    by (simp add: timeout_message_def)
qed

lemma timeout_run:
  "monitor_job timeout_env job0 =
     Returned (job0\<lparr>process := \<lparr>returncode = Some (- 15), signals = [SIGTERM]\<rparr>,
        queue := [Msg ''status'' [(''state'', JStr ''started'')], Msg ''status'' timeout_data,
          Msg ''artifact'' (artifact_data ''log'' ''run.log'' ''run.log'' (job_id job0 @ ''/run.log'')),
          Msg ''close'' []],
        finished_at := 606, done_flag := True\<rparr>)"
  by (simp add: monitor_job_def timeout_env_def monitor_cycle_def alive_obs_def finalize_def
      relative_to_def path_name_def poll_def terminate_def kill_def send_signal_def Let_def push_def
      JOB_TIMEOUT_SECONDS_def job0_def new_job_def)

lemma exit_run:
  "monitor_job exit_env job0 =
     Returned (job0\<lparr>process := \<lparr>returncode = Some 0, signals = []\<rparr>,
        queue := [started_msg, Msg ''status'' [(''state'', JStr ''finished''), (''code'', JInt 0)],
          run_log_msg (job_id job0), Msg ''close'' []],
        finished_at := 5, done_flag := True\<rparr>)"
proof -
  have "returncode (process (push ''status'' [(''state'', JStr ''started'')] job0)) = None"
    by (simp add: job0_def new_job_def)
  then show ?thesis
    unfolding monitor_job_def
    by (simp add: exit_loop_any)
      (simp add: exit_env_def finalize_def job0_def new_job_def started_msg_def run_log_msg_def
        relative_to_def path_name_def Let_def push_def exit_data_def json_code_def)
qed

lemma delivered_left [simp]:
  "delivered (j\<lparr>finished_at := t\<rparr>) j' = delivered j j'"
  "delivered (j\<lparr>done_flag := b\<rparr>) j' = delivered j j'"
  "delivered (j\<lparr>last_stderr := x\<rparr>) j' = delivered j j'"
  by (simp_all add: delivered_def pushed_def)

lemma finalize_delivered:
  assumes "finalize e t j = Returned j'"
  shows "delivered j j'"
proof -
  let ?j1 = "(scan_artifacts (final_fs e) j)\<lparr>last_stderr := final_stderr e\<rparr>"
  let ?fd = "if t then timeout_data else exit_data ?j1"
  let ?j2 = "push ''status'' ?fd ?j1"
  obtain rel where rel: "relative_to (log_path ?j2) (output_dir ?j2) = Some rel"
    using assms by (cases "relative_to (log_path ?j2) (output_dir ?j2)")
      (simp_all add: finalize_def Let_def)
  let ?j3 = "push ''artifact'' (artifact_data ''log'' (path_name (log_path ?j2)) (as_posix rel)
                 (job_id ?j2 @ ''/'' @ path_name (log_path ?j2))) ?j2"
  let ?j5 = "?j3\<lparr>finished_at := final_now e, done_flag := True\<rparr>"
  have j': "j' = push ''close'' [] ?j5"
    using assms rel by (simp add: finalize_def Let_def)
  have 1: "delivered j ?j1"
    by (simp add: scan_artifacts_delivered)
  have 2: "delivered ?j1 ?j2" and 3: "delivered ?j2 ?j3"
    by (rule push_delivered)+
  have "delivered ?j5 (push ''close'' [] ?j5)"
    by (rule push_delivered)
  then have 4: "delivered ?j3 (push ''close'' [] ?j5)"
    by simp
  show ?thesis
    unfolding j' using 1 2 3 4 by (blast intro: delivered_trans)
qed

lemma monitor_job_delivered:
  assumes "monitor_job e j = Returned j'"
  shows "delivered j j'"
proof -
  let ?start = "push ''status'' [(''state'', JStr ''started'')] j"
  obtain t j1 where loop: "monitor_loop (cycles e) 0 ?start = Some (t, j1)"
    and fin: "finalize e t j1 = Returned j'"
    using assms by (auto simp add: monitor_job_def split: option.splits)
  have "delivered j ?start"
    by (rule push_delivered)
  moreover have "delivered ?start j1"
    using loop by (rule monitor_loop_delivered)
  moreover have "delivered j1 j'"
    using fin by (rule finalize_delivered)
  ultimately show ?thesis
    by (blast intro: delivered_trans)
qed

lemma finalize_states_returned:
  assumes "finalize e t j = Returned j'" and "\<not> done_flag j"
  shows "\<exists>before jd. finalize_states e t j = before @ [jd, j'] \<and>
           list_all (\<lambda>s. \<not> done_flag s) before \<and> done_flag jd \<and>
           queue j' = queue jd @ [Msg ''close'' []]"
proof -
  let ?j1 = "(scan_artifacts (final_fs e) j)\<lparr>last_stderr := final_stderr e\<rparr>"
  let ?fd = "if t then timeout_data else exit_data ?j1"
  let ?j2 = "push ''status'' ?fd ?j1"
  obtain rel where rel: "relative_to (log_path ?j2) (output_dir ?j2) = Some rel"
    using assms(1) by (cases "relative_to (log_path ?j2) (output_dir ?j2)")
      (simp_all add: finalize_def Let_def)
  let ?j3 = "push ''artifact'' (artifact_data ''log'' (path_name (log_path ?j2)) (as_posix rel)
                 (job_id ?j2 @ ''/'' @ path_name (log_path ?j2))) ?j2"
  let ?j4 = "?j3\<lparr>finished_at := final_now e\<rparr>"
  let ?j5 = "?j4\<lparr>done_flag := True\<rparr>"
  have j': "j' = push ''close'' [] ?j5"
    using assms(1) rel by (simp add: finalize_def Let_def)
  have st: "finalize_states e t j = [?j1, ?j2, ?j3, ?j4] @ [?j5, j']"
    unfolding j' using rel by (simp add: finalize_states_def Let_def)
  have nd: "\<not> done_flag (scan_artifacts (final_fs e) j)"
    using assms(2) scan_artifacts_frame [of j "final_fs e"] by (simp add: same_frame_def)
  have "list_all (\<lambda>s. \<not> done_flag s) [?j1, ?j2, ?j3, ?j4]"
    using nd by simp
  moreover have "done_flag ?j5" by simp
  moreover have "queue j' = queue ?j5 @ [Msg ''close'' []]"
    unfolding j' by simp
  ultimately show ?thesis
    using st by blast
qed

lemma monitor_states_returned:
  assumes "monitor_job e j = Returned j'" and "\<not> done_flag j"
  shows "\<exists>before jd. monitor_states e j = before @ [jd, j'] \<and>
           list_all (\<lambda>s. \<not> done_flag s) before \<and> done_flag jd \<and>
           queue j' = queue jd @ [Msg ''close'' []]"
proof -
  let ?start = "push ''status'' [(''state'', JStr ''started'')] j"
  obtain t j1 where loop: "monitor_loop (cycles e) 0 ?start = Some (t, j1)"
    and fin: "finalize e t j1 = Returned j'"
    using assms(1) by (auto simp add: monitor_job_def split: option.splits)
  have ls: "\<forall>s \<in> set (monitor_loop_states (cycles e) 0 ?start). \<not> done_flag s"
    using monitor_loop_states_not_done [of _ "cycles e" 0 ?start] assms(2) by simp
  have "j1 \<in> set (monitor_loop_states (cycles e) 0 ?start)"
    using monitor_loop_last_state [OF loop] last_in_set by blast
  then have "\<not> done_flag j1"
    using ls by blast
  from finalize_states_returned [OF fin this] obtain before jd where
    f: "finalize_states e t j1 = before @ [jd, j']"
    and b: "list_all (\<lambda>s. \<not> done_flag s) before" and d: "done_flag jd"
    and q: "queue j' = queue jd @ [Msg ''close'' []]"
    by blast
  let ?before = "j # ?start # monitor_loop_states (cycles e) 0 ?start @ before"
  have "monitor_states e j = ?before @ [jd, j']"
    using loop f by (simp add: monitor_states_def Let_def)
  moreover have "list_all (\<lambda>s. \<not> done_flag s) ?before"
    using assms(2) ls b by (auto simp add: list_all_iff)
  ultimately show ?thesis
    using d q by blast
qed

section \<open>Order of the events on the bus\<close>

lemma pipe_line_props:
  "\<exists>ms. queue (pipe_line s l j) = queue j @ ms \<and> (\<forall>m \<in> set ms. event m = ''log'')"
  by (simp add: pipe_line_def Let_def)

lemma fold_pipe_line:
  "\<exists>ms. queue (fold (pipe_line s) ls j) = queue j @ ms \<and> (\<forall>m \<in> set ms. event m = ''log'')"
proof (induction ls arbitrary: j)
  case Nil
  show ?case by simp
next
  case (Cons l ls)
  obtain a where a: "queue (pipe_line s l j) = queue j @ a" "\<forall>m \<in> set a. event m = ''log''"
    using pipe_line_props by blast
  obtain b where b: "queue (fold (pipe_line s) ls (pipe_line s l j)) = queue (pipe_line s l j) @ b"
      "\<forall>m \<in> set b. event m = ''log''"
    using Cons.IH by blast
  have "queue (fold (pipe_line s) (l # ls) j) = queue j @ (a @ b)"
    using a b by simp
  moreover have "\<forall>m \<in> set (a @ b). event m = ''log''"
    using a b by auto
  ultimately show ?case by blast
qed

lemma pipe_output_logs: "\<forall>m \<in> set (pushed j (pipe_output j pipe s)). event m = ''log''"
proof (cases pipe)
  case None
  then show ?thesis by (simp add: pipe_output_def pushed_def)
next
  case (Some ls)
  obtain ms where "queue (fold (pipe_line s) ls j) = queue j @ ms" "\<forall>m \<in> set ms. event m = ''log''"
    using fold_pipe_line by blast
  then show ?thesis
    using Some by (simp add: pipe_output_def pushed_def)
qed

text \<open>
  In every order in which the bus can receive the messages, the messages of the monitor
  keep their order, and they are what is left when the log events are taken out.
\<close>

lemma interleavings_filter:
  assumes bus: "bus \<in> interleavings (m # ms) out err"
    and mon: "\<forall>x \<in> set (m # ms). event x \<noteq> ''log''"
    and out: "\<forall>x \<in> set out. event x = ''log''"
    and err: "\<forall>x \<in> set err. event x = ''log''"
  shows "hd bus = m \<and> filter (\<lambda>x. event x \<noteq> ''log'') bus = m # ms"
proof -
  let ?P = "\<lambda>x. event x \<noteq> ''log''"
  obtain logs rest where logs: "logs \<in> shuffles out err" and rest: "rest \<in> shuffles ms logs"
    and b: "bus = m # rest"
    using bus by (auto simp add: interleavings_def)
  have "set logs = set out \<union> set err"
    using logs by (rule set_shuffles)
  then have fl: "filter ?P logs = []"
    using out err by (auto simp add: filter_empty_conv)
  have fm: "filter ?P ms = ms"
    using mon by (simp add: filter_id_conv)
  have "filter ?P rest \<in> filter ?P ` shuffles ms logs"
    using rest by (rule imageI)
  then have "filter ?P rest \<in> shuffles (filter ?P ms) (filter ?P logs)"
    by (simp only: filter_shuffles)
  then have "filter ?P rest = ms"
    using fl fm by simp
  then show ?thesis
    using b mon by simp
qed

lemma stdout_bye:
  "pushed job0 (pipe_output job0 (Some [''bye'' @ [CHR 0x0A]]) ''stdout'') = [late_log]"
  by (simp add: pipe_output_def pipe_line_def rstrip.simps strip_last_def white_space_def
      endswith_def pushed_def late_log_def
      job0_def new_job_def push_def Let_def)

lemma stderr_nothing: "pushed job0 (pipe_output job0 (Some []) ''stderr'') = []"
  by (simp add: pipe_output_def pushed_def)

lemma filter_ends:
  "filter P xs = ys @ [l, c] \<Longrightarrow> \<exists>a b. xs = a @ l # b \<and> filter P b = [c]"
proof (induction xs arbitrary: ys)
  case Nil
  then show ?case by simp
next
  case (Cons x xs)
  show ?case
  proof (cases "P x")
    case False
    then have "filter P xs = ys @ [l, c]" using Cons.prems by simp
    then obtain a b where "xs = a @ l # b" "filter P b = [c]"
      using Cons.IH by blast
    then have "x # xs = (x # a) @ l # b \<and> filter P b = [c]" by simp
    then show ?thesis by blast
  next
    case True
    then have eq: "x # filter P xs = ys @ [l, c]" using Cons.prems by simp
    show ?thesis
    proof (cases ys)
      case Nil
      then have "x = l" and "filter P xs = [c]" using eq by simp_all
      then have "x # xs = [] @ l # xs \<and> filter P xs = [c]" by simp
      then show ?thesis by blast
    next
      case (Cons y ys')
      then have "filter P xs = ys' @ [l, c]" using eq by simp
      then obtain a b where "xs = a @ l # b" "filter P b = [c]"
        using Cons.IH by blast
      then have "x # xs = (x # a) @ l # b \<and> filter P b = [c]" by simp
      then show ?thesis by blast
    qed
  qed
qed

section \<open>Artifacts are published once\<close>

text \<open>
  Claim C5. Over any sequence of scans of a job, \<open>seen\<close> only grows and the queue only
  grows; the events the scans publish are artifact events whose paths are pairwise
  different, were not in \<open>seen\<close> before and are in \<open>seen\<close> afterwards. Scanning a second
  time on the same file system changes nothing, and so does any scan in which every
  candidate that is a file is already in \<open>seen\<close>: the job, its queue included, stays as
  it is. When the monitor of a job made by \<open>run_job\<close> has returned, the artifact events in
  the job's queue, the one of the run log included, have pairwise different paths.
\<close>

theorem C5_scanner_grows_once_idempotent:
  "seen j \<subseteq> seen (fold scan_artifacts fss j) \<and>
   queue (fold scan_artifacts fss j) = queue j @ pushed j (fold scan_artifacts fss j) \<and>
   distinct (map msg_path (pushed j (fold scan_artifacts fss j))) \<and>
   (\<forall>m \<in> set (pushed j (fold scan_artifacts fss j)).
      event m = ''artifact'' \<and>
      (\<exists>p. msg_path m = Some (JStr p) \<and> p \<notin> seen j \<and> p \<in> seen (fold scan_artifacts fss j))) \<and>
   scan_artifacts f (scan_artifacts f j) = scan_artifacts f j \<and>
   ((\<forall>rel \<in> set (candidates f (output_dir j)).
        output_dir j @ rel \<in> files f \<longrightarrow> as_posix rel \<in> seen j) \<longrightarrow>
      scan_artifacts f j = j) \<and>
   (monitor_job e (new_job outputs jid t0) = Returned jr \<longrightarrow>
      distinct (map msg_path (filter (\<lambda>m. event m = ''artifact'') (queue jr))))"
proof -
  let ?j' = "fold scan_artifacts fss j"
  have sc: "scanned j ?j'"
    by (rule scans_scanned)
  have paths: "set (map msg_path (pushed j ?j')) = (\<lambda>p. Some (JStr p)) ` (seen ?j' - seen j)"
    using sc by (simp add: scanned_def)
  have "\<exists>p. msg_path m = Some (JStr p) \<and> p \<notin> seen j \<and> p \<in> seen ?j'"
    if "m \<in> set (pushed j ?j')" for m
  proof -
    have "msg_path m \<in> (\<lambda>p. Some (JStr p)) ` (seen ?j' - seen j)"
      using that paths by auto
    then show ?thesis by auto
  qed
  moreover have "\<forall>m \<in> set (pushed j ?j'). event m = ''artifact''"
    using sc by (simp add: scanned_def)
  moreover have "scan_artifacts f j = j"
    if "\<forall>rel \<in> set (candidates f (output_dir j)).
          output_dir j @ rel \<in> files f \<longrightarrow> as_posix rel \<in> seen j"
    using fold_scan_one_known [OF that] by (simp add: scan_artifacts_def)
  moreover have "distinct (map msg_path (filter (\<lambda>m. event m = ''artifact'') (queue jr)))"
    if ret: "monitor_job e (new_job outputs jid t0) = Returned jr"
  proof -
    from new_job_monitored [OF ret] obtain arts fd where
      q: "queue jr = started_msg # arts @ [Msg ''status'' fd, run_log_msg jid, Msg ''close'' []]"
      and d: "distinct (map msg_path arts)"
      and ps: "set (map msg_path arts) = (\<lambda>p. Some (JStr p)) ` seen jr"
      and arts: "\<forall>m \<in> set arts. event m = ''artifact'' \<and>
              (\<exists>p. msg_path m = Some (JStr p) \<and> msg_kind m = Some (JStr (classify_artifact p)))"
      by (elim exE conjE) (rule that)
    have "''run.log'' \<notin> seen jr"
      using ret by (rule monitor_job_no_run_log) (simp add: new_job_def)
    then have "msg_path (run_log_msg jid) \<notin> set (map msg_path arts)"
      unfolding ps by (auto simp add: run_log_msg_def msg_path_def artifact_data_def)
    moreover have "filter (\<lambda>m. event m = ''artifact'') (queue jr) = arts @ [run_log_msg jid]"
      unfolding q using arts by (simp add: started_msg_def run_log_msg_def filter_id_conv)
    ultimately show ?thesis
      using d by simp
  qed
  ultimately show ?thesis
    using sc scan_artifacts_idem [of f j] by (simp add: scanned_def)
qed

theorem C5_scanner_grows_once_idempotent_witness:
  "seen job0 \<subseteq> seen (fold scan_artifacts [figure_fs, figure_fs] job0) \<and>
   pushed job0 (fold scan_artifacts [figure_fs, figure_fs] job0) = [figure_msg, icon_msg] \<and>
   distinct (map msg_path (pushed job0 (fold scan_artifacts [figure_fs, figure_fs] job0))) \<and>
   scan_artifacts figure_fs (scan_artifacts figure_fs job0) = scan_artifacts figure_fs job0 \<and>
   scan_artifacts empty_fs job0 = job0 \<and>
   (case monitor_job timeout_env job0 of
      Returned jr \<Rightarrow> distinct (map msg_path (filter (\<lambda>m. event m = ''artifact'') (queue jr)))
    | _ \<Rightarrow> False)"
proof -
  have e: "\<forall>rel \<in> set (candidates empty_fs (output_dir job0)).
        output_dir job0 @ rel \<in> files empty_fs \<longrightarrow> as_posix rel \<in> seen job0"
    by (simp add: empty_fs_def)
  note c = C5_scanner_grows_once_idempotent [of job0 "[figure_fs, figure_fs]" figure_fs]
  have i: "scan_artifacts figure_fs (scan_artifacts figure_fs job0) = scan_artifacts figure_fs job0"
    using c by simp
  have p: "pushed job0 (fold scan_artifacts [figure_fs, figure_fs] job0) = [figure_msg, icon_msg]"
  proof -
    have "fold scan_artifacts [figure_fs, figure_fs] job0 = scan_artifacts figure_fs job0"
      using i by simp
    then show ?thesis
      unfolding figure_scan by (simp add: pushed_def job0_def new_job_def)
  qed
  have n: "scan_artifacts empty_fs job0 = job0"
    using C5_scanner_grows_once_idempotent [of job0 "[]" empty_fs] e by blast
  obtain jr where r: "monitor_job timeout_env job0 = Returned jr"
    using timeout_run by simp
  then have "distinct (map msg_path (filter (\<lambda>m. event m = ''artifact'') (queue jr)))"
    using C5_scanner_grows_once_idempotent [of job0 "[]" empty_fs timeout_env
        "[''srv'', ''outputs'']" "''20240101_000000_0a1b2c3d''" 0 jr]
    by (simp add: job0_def)
  then have m: "case monitor_job timeout_env job0 of
      Returned jr \<Rightarrow> distinct (map msg_path (filter (\<lambda>m. event m = ''artifact'') (queue jr)))
    | _ \<Rightarrow> False"
    using r by simp
  show ?thesis
    using c i p n m by simp
qed

section \<open>Properties of the event stream\<close>

lemma fold_max_ge: "x \<in> set xs \<Longrightarrow> x \<le> fold max xs (a::nat)"
  by (metis Max.set_eq_fold Max_ge List.finite_set list.set_intros(2))

lemma unsubscribe_subscribe: "unsubscribe (fst (subscribe j)) (snd (subscribe j)) = j"
proof -
  let ?h = "Suc (fold max (map fst (subscribers j)) 0)"
  have "\<forall>x \<in> set (subscribers j). fst x \<noteq> ?h"
    using fold_max_ge [of _ "map fst (subscribers j)" 0] by fastforce
  then have "filter (\<lambda>(q, l). q \<noteq> ?h) (subscribers j) = subscribers j"
    by (auto simp add: filter_id_conv)
  then show ?thesis
    by (simp add: unsubscribe_def subscribe_def Let_def)
qed

lemma subscribe_fields:
  "done_flag (snd (subscribe j)) = done_flag j"
  "seen (snd (subscribe j)) = seen j"
  "job_id (snd (subscribe j)) = job_id j"
  "process (snd (subscribe j)) = process j"
  "last_stderr (snd (subscribe j)) = last_stderr j"
  by (simp_all add: subscribe_def Let_def)

lemma replay_subscribed: "replay order (snd (subscribe j)) = replay order j"
  by (simp add: replay_def exit_data_def subscribe_fields)

lemma stream_events_done:
  assumes "JOBS jid = Some j" and "done_flag j"
  shows "stream_events JOBS jid order items = Inr (replay order j, True, j)"
proof -
  obtain aq j1 where s: "subscribe j = (aq, j1)"
    by (cases "subscribe j")
  have "done_flag j1" and "replay order j1 = replay order j" and "unsubscribe aq j1 = j"
    using s assms(2) subscribe_fields(1) [of j] replay_subscribed [of order j]
      unsubscribe_subscribe [of j] by simp_all
  then show ?thesis
    using assms(1) s by (simp add: stream_events_def event_stream_def)
qed

text \<open>
  Claim C2. For a job in the registry whose \<open>done\<close> flag is set, whatever the feed, the
  stream consists of one artifact frame for every path in \<open>seen\<close>, in the order of the
  iteration over the set and each path once, followed by one status frame with state
  \<open>finished\<close>; then the stream has ended and the subscriber is detached again, the job
  being as it was.
\<close>

theorem C2_late_subscriber_replay:
  assumes "JOBS jid = Some j" and "done_flag j" and "distinct order" and "set order = seen j"
  shows "\<exists>frames fd.
           stream_events JOBS jid order items = Inr (frames @ [Frame ''status'' fd], True, j) \<and>
           map_of fd ''state'' = Some (JStr ''finished'') \<and>
           length frames = card (seen j) \<and>
           map (frame_field ''path'') frames = map (\<lambda>p. Some (JStr p)) order \<and>
           list_all (\<lambda>f. frame_event f = Some ''artifact'') frames"
proof -
  let ?frames = "map (\<lambda>rel_path. Frame ''artifact''
            (artifact_data (classify_artifact rel_path) (path_name (split_path rel_path))
               rel_path (job_id j @ ''/'' @ rel_path))) order"
  have "stream_events JOBS jid order items = Inr (?frames @ [Frame ''status'' (exit_data j)], True, j)"
    using stream_events_done [of JOBS jid j, OF assms(1,2)] by (simp add: replay_def)
  moreover have "map_of (exit_data j) ''state'' = Some (JStr ''finished'')"
    by (simp add: exit_data_def)
  moreover have "length ?frames = card (seen j)"
    using assms(3,4) distinct_card [of order] by simp
  moreover have "map (frame_field ''path'') ?frames = map (\<lambda>p. Some (JStr p)) order"
    by (simp add: artifact_data_def comp_def)
  moreover have "list_all (\<lambda>f. frame_event f = Some ''artifact'') ?frames"
    by (simp add: list_all_iff)
  ultimately show ?thesis
    by blast
qed

theorem C2_late_subscriber_replay_witness:
  "stream_events [''x'' \<mapsto> done_job] ''x'' [''final.svg'', ''figure.png''] [Got started_msg] =
     Inr ([Frame ''artifact'' (artifact_data ''final_svg'' ''final.svg'' ''final.svg''
             (job_id job0 @ ''/final.svg'')),
           Frame ''artifact'' (artifact_data ''figure'' ''figure.png'' ''figure.png''
             (job_id job0 @ ''/figure.png'')),
           Frame ''status'' [(''state'', JStr ''finished''), (''code'', JInt 1),
             (''error'', JStr ''boom'')]],
          True, done_job)"
proof -
  have 1: "[''x'' \<mapsto> done_job] ''x'' = Some done_job" by simp
  have 2: "done_flag done_job" by (simp add: done_job_def)
  have 3: "distinct [''final.svg'', ''figure.png'']" by simp
  have 4: "set [''final.svg'', ''figure.png''] = seen done_job" by (auto simp add: done_job_def)
  from C2_late_subscriber_replay [of "[''x'' \<mapsto> done_job]" "''x''" done_job
      "[''final.svg'', ''figure.png'']" "[Got started_msg]", OF 1 2 3 4]
  obtain frames fd where
    "stream_events [''x'' \<mapsto> done_job] ''x'' [''final.svg'', ''figure.png''] [Got started_msg] =
       Inr (frames @ [Frame ''status'' fd], True, done_job)"
    by blast
  moreover have "stream_events [''x'' \<mapsto> done_job] ''x'' [''final.svg'', ''figure.png''] [Got started_msg] =
     Inr (replay [''final.svg'', ''figure.png''] done_job, True, done_job)"
    by (rule stream_events_done [of "[''x'' \<mapsto> done_job]" "''x''" done_job, OF 1 2])
  moreover have "replay [''final.svg'', ''figure.png''] done_job =
     [Frame ''artifact'' (artifact_data ''final_svg'' ''final.svg'' ''final.svg''
             (job_id job0 @ ''/final.svg'')),
           Frame ''artifact'' (artifact_data ''figure'' ''figure.png'' ''figure.png''
             (job_id job0 @ ''/figure.png'')),
           Frame ''status'' [(''state'', JStr ''finished''), (''code'', JInt 1),
             (''error'', JStr ''boom'')]]"
    by (simp add: replay_def done_job_def classify_artifact_def endswith_def startswith_def
        split_path_def path_name_def exit_data_def json_code_def)
  ultimately show ?thesis
    by simp
qed

text \<open>
  Claim C3, evaluated on a job that timed out. The monitor terminates the subprocess and
  the terminal event it pushes has code \<open>-1\<close> and the timeout message, which contains the
  budget in minutes. The replay to a subscriber that attaches afterwards is built from
  \<open>returncode\<close> and \<open>last_stderr\<close> alone: its status event has the code \<open>-15\<close> of the
  signal and no error.
\<close>

theorem C3_replay_after_timeout:
  "(case monitor_job timeout_env job0 of
      Returned j' \<Rightarrow>
        queue j' ! 1 = Msg ''status'' timeout_data \<and>
        map_of timeout_data ''code'' = Some (JInt (- 1)) \<and>
        map_of timeout_data ''error'' = Some (JStr timeout_message) \<and>
        contains timeout_message (str_nat (JOB_TIMEOUT_SECONDS div 60)) \<and>
        signals (process j') = [SIGTERM] \<and>
        seen j' = {} \<and> done_flag j' \<and>
        event_stream [] [] j' =
          ([Frame ''status'' [(''state'', JStr ''finished''), (''code'', JInt (- 15))]], True)
    | _ \<Rightarrow> False)"
  unfolding timeout_run using timeout_message_duration
  by (simp add: timeout_data_def event_stream_def replay_def exit_data_def
      json_code_def job0_def new_job_def)

section \<open>Live subscribers\<close>

lemma live_stream_frames:
  "Wait_expired True \<notin> set items \<Longrightarrow>
     filter (\<lambda>f. f \<noteq> Keepalive) (fst (live_stream items)) =
       map (\<lambda>m. Frame (event m) (data m)) (takeWhile (\<lambda>m. event m \<noteq> ''close'') (gots items))"
proof (induction items)
  case Nil
  show ?case by simp
next
  case (Cons a items)
  show ?case
  proof (cases a)
    case (Got m)
    then show ?thesis using Cons by simp
  next
    case (Wait_expired d)
    then have "\<not> d" using Cons.prems by auto
    then show ?thesis using Wait_expired Cons by simp
  qed
qed

lemma filter_takeWhile_filter:
  assumes "\<And>x. \<not> P x \<Longrightarrow> Q x \<and> \<not> A x"
  shows "filter A (takeWhile Q xs) = filter A (takeWhile Q (filter P xs))"
  using assms by (induction xs) auto

lemma one_before_close:
  assumes eq: "a @ s = x @ [l, c]" and l: "l \<notin> set a"
    and x: "\<forall>y \<in> set x. Q y \<and> \<not> A y" and ql: "Q l" and al: "A l" and qc: "\<not> Q c"
  shows "filter A (takeWhile Q s) = [l]"
proof -
  from eq obtain us where "(a = x @ us \<and> us @ s = [l, c]) \<or> (a @ us = x \<and> s = us @ [l, c])"
    by (auto simp add: append_eq_append_conv2)
  then obtain vs where s: "s = vs @ [l, c]" and vs: "set vs \<subseteq> set x"
  proof
    assume h: "a = x @ us \<and> us @ s = [l, c]"
    then have "us = []"
      using l by (cases us) auto
    then have "s = [] @ [l, c]" using h by simp
    then show ?thesis using that [of "[]"] by simp
  next
    assume h: "a @ us = x \<and> s = us @ [l, c]"
    then have "set us \<subseteq> set x" by auto
    then show ?thesis using that [of us] h by simp
  qed
  have "takeWhile Q s = vs @ [l]"
    unfolding s using vs x ql qc by (simp add: takeWhile_append2 subset_iff)
  moreover have "filter A vs = []"
    using vs x by (auto simp add: filter_empty_conv)
  ultimately show ?thesis
    using al by simp
qed

lemma is_log_artifact_frame:
  "is_log_artifact (Frame (event m) (data m)) =
     (event m = ''artifact'' \<and> msg_kind m = Some (JStr ''log''))"
  by (simp add: is_log_artifact_def msg_kind_def)

lemma live_log_artifacts:
  assumes "Wait_expired True \<notin> set items"
  shows "filter is_log_artifact (fst (live_stream items)) =
     map (\<lambda>m. Frame (event m) (data m))
       (filter (\<lambda>m. event m = ''artifact'' \<and> msg_kind m = Some (JStr ''log''))
          (takeWhile (\<lambda>m. event m \<noteq> ''close'') (gots items)))"
proof -
  have "filter is_log_artifact (fst (live_stream items)) =
      filter is_log_artifact (filter (\<lambda>f. f \<noteq> Keepalive) (fst (live_stream items)))"
    by (auto simp add: is_log_artifact_def intro: filter_cong)
  then show ?thesis
    unfolding live_stream_frames [OF assms]
    by (simp add: filter_map comp_def is_log_artifact_frame)
qed

lemma deliver_delivered: "delivered j (deliver ms j) \<and> pushed j (deliver ms j) = ms"
proof (induction ms arbitrary: j)
  case Nil
  show ?case by (simp add: deliver_def delivered_refl pushed_def)
next
  case (Cons m ms)
  let ?j1 = "push (event m) (data m) j"
  have 1: "delivered j ?j1" by (rule push_delivered)
  have 2: "delivered ?j1 (deliver ms ?j1)" and 3: "pushed ?j1 (deliver ms ?j1) = ms"
    using Cons.IH [of ?j1] by simp_all
  have d: "delivered j (deliver ms ?j1)"
    using 1 2 by (rule delivered_trans)
  have "queue (deliver ms ?j1) = queue ?j1 @ ms"
    using 2 3 by (simp add: delivered_def)
  then have "pushed j (deliver ms ?j1) = m # ms"
    by (simp add: pushed_def)
  then show ?case
    using d by (simp add: deliver_def)
qed

lemma deliver_fields [simp]:
  "done_flag (deliver ms j) = done_flag j"
  "seen (deliver ms j) = seen j"
  "job_id (deliver ms j) = job_id j"
  by (induction ms arbitrary: j) (simp_all add: deliver_def)

lemma subscribe_receives:
  "subscriber_queue (fst (subscribe j)) (deliver ms (snd (subscribe j))) = Some ms"
proof -
  let ?h = "Suc (fold max (map fst (subscribers j)) 0)"
  let ?js = "j\<lparr>subscribers := subscribers j @ [(?h, [])]\<rparr>"
  have s: "subscribe j = (?h, ?js)"
    by (simp add: subscribe_def Let_def)
  have fresh: "?h \<notin> fst ` set (subscribers j)"
    using fold_max_ge [of _ "map fst (subscribers j)" 0] by fastforce
  have "subscribers (deliver ms ?js) = map (\<lambda>(h, q). (h, q @ ms)) (subscribers ?js)"
    using deliver_delivered [of ?js ms] by (simp add: delivered_def)
  then have "subscribers (deliver ms ?js) =
      map (\<lambda>(h, q). (h, q @ ms)) (subscribers j) @ [(?h, ms)]"
    by simp
  moreover have "map_of (map (\<lambda>(h, q). (h, q @ ms)) (subscribers j)) ?h = None"
    using fresh by (simp add: map_of_eq_None_iff image_image case_prod_beta)
  ultimately show ?thesis
    unfolding s by (simp add: subscriber_queue_def map_add_def)
qed

lemma subscribe_not_done: "done_flag (snd (subscribe j)) = done_flag j"
  by (simp add: subscribe_def Let_def)

lemma live_stream_sent:
  "Wait_expired True \<notin> set items \<Longrightarrow>
     frames_sent (fst (live_stream items)) =
       map frame_of (takeWhile (\<lambda>m. event m \<noteq> ''close'') (gots items))"
  using live_stream_frames [of items] by (simp add: frames_sent_def frame_of_def)

lemma live_stream_ended:
  "Wait_expired True \<notin> set items \<Longrightarrow> \<exists>m \<in> set (gots items). event m = ''close'' \<Longrightarrow>
     snd (live_stream items)"
proof (induction items)
  case Nil
  then show ?case by simp
next
  case (Cons a items)
  show ?case
  proof (cases a)
    case (Got m)
    then show ?thesis using Cons by auto
  next
    case (Wait_expired d)
    then have "\<not> d" using Cons.prems by auto
    then show ?thesis using Wait_expired Cons by simp
  qed
qed

lemma takeWhile_read:
  assumes "sfx = xs @ rest" and "\<exists>m \<in> set xs. \<not> Q m"
  shows "takeWhile Q xs = takeWhile Q sfx"
  using assms by auto

lemma live_stream_keepalives:
  "live_stream (replicate n (Wait_expired False) @ items) =
     (replicate n Keepalive @ fst (live_stream items), snd (live_stream items))"
  by (induction n) simp_all

lemma silent_stream:
  "\<not> done_flag j \<Longrightarrow>
     event_stream order silent_feed j = (frame_of started_msg # replicate 60 Keepalive, True)"
  by (simp add: event_stream_def silent_feed_def live_stream_keepalives started_msg_def
      frame_of_def)

lemma frames_sent_silent:
  "frames_sent (frame_of started_msg # replicate 60 Keepalive) = [frame_of started_msg]"
  by (simp add: frames_sent_def frame_of_def)

lemma timeout_run_subscribed:
  "(case monitor_job timeout_env (snd (subscribe job0)) of
      Returned j' \<Rightarrow>
        subscriber_queue (fst (subscribe job0)) j' =
          Some [started_msg, Msg ''status'' timeout_data, run_log_msg (job_id job0),
                Msg ''close'' []]
    | _ \<Rightarrow> False)"
  by (simp add: monitor_job_def timeout_env_def monitor_cycle_def alive_obs_def finalize_def
      relative_to_def path_name_def poll_def terminate_def kill_def send_signal_def Let_def
      push_def JOB_TIMEOUT_SECONDS_def job0_def new_job_def subscribe_def subscriber_queue_def
      started_msg_def run_log_msg_def)

lemma live_stream_initial:
  "\<exists>k. frames_sent (fst (live_stream items)) =
     map frame_of (take k (takeWhile (\<lambda>m. event m \<noteq> ''close'') (gots items)))"
proof (induction items)
  case Nil
  show ?case by (simp add: frames_sent_def)
next
  case (Cons a items)
  then obtain k where k: "frames_sent (fst (live_stream items)) =
     map frame_of (take k (takeWhile (\<lambda>m. event m \<noteq> ''close'') (gots items)))"
    by blast
  show ?case
  proof (cases a)
    case (Got m)
    show ?thesis
    proof (cases "event m = ''close''")
      case True
      then show ?thesis using Got by (simp add: frames_sent_def)
    next
      case False
      then have "frames_sent (fst (live_stream (a # items))) =
          map frame_of (take (Suc k) (takeWhile (\<lambda>m. event m \<noteq> ''close'') (gots (a # items))))"
        using Got k by (simp add: frames_sent_def frame_of_def)
      then show ?thesis by blast
    qed
  next
    case (Wait_expired d)
    show ?thesis
    proof (cases d)
      case True
      then have "frames_sent (fst (live_stream (a # items))) =
          map frame_of (take 0 (takeWhile (\<lambda>m. event m \<noteq> ''close'') (gots (a # items))))"
        using Wait_expired by (simp add: frames_sent_def)
      then show ?thesis by blast
    next
      case False
      then have "frames_sent (fst (live_stream (a # items))) =
          map frame_of (take k (takeWhile (\<lambda>m. event m \<noteq> ''close'') (gots (a # items))))"
        using Wait_expired k by (simp add: frames_sent_def)
      then show ?thesis by blast
    qed
  qed
qed

lemma takeWhile_initial: "\<exists>n. takeWhile Q xs = take n (takeWhile Q (xs @ ys))"
proof (cases "\<forall>x \<in> set xs. Q x")
  case True
  then have "takeWhile Q xs = take (length xs) (takeWhile Q (xs @ ys))"
    by (simp add: takeWhile_append2)
  then show ?thesis by blast
next
  case False
  then have "takeWhile Q (xs @ ys) = takeWhile Q xs"
    by auto
  then have "takeWhile Q xs = take (length (takeWhile Q xs)) (takeWhile Q (xs @ ys))"
    by simp
  then show ?thesis by blast
qed

lemma live_stream_in_order:
  assumes "sfx = gots items @ rest"
  shows "\<exists>k. frames_sent (fst (live_stream items)) =
     map frame_of (take k (takeWhile (\<lambda>m. event m \<noteq> ''close'') sfx))"
proof -
  let ?Q = "\<lambda>m. event m \<noteq> ''close''"
  obtain k where k: "frames_sent (fst (live_stream items)) =
     map frame_of (take k (takeWhile ?Q (gots items)))"
    using live_stream_initial by blast
  obtain n where n: "takeWhile ?Q (gots items) = take n (takeWhile ?Q sfx)"
    unfolding assms using takeWhile_initial [of ?Q "gots items" rest] by blast
  have "frames_sent (fst (live_stream items)) = map frame_of (take (min k n) (takeWhile ?Q sfx))"
    unfolding k n by simp
  then show ?thesis by blast
qed

lemma filter_implied:
  assumes "\<And>x. A x \<Longrightarrow> P x"
  shows "filter A (filter P xs) = filter A xs"
  using assms by (induction xs) auto

lemma filter_part_single:
  assumes "filter A (pre @ sfx) = [x]"
  shows "filter A (take k (takeWhile Q sfx)) = [] \<or> filter A (take k (takeWhile Q sfx)) = [x]"
proof -
  let ?t = "take k (takeWhile Q sfx)"
  have "(?t @ drop k (takeWhile Q sfx)) @ dropWhile Q sfx = sfx"
    by simp
  then have "sfx = ?t @ (drop k (takeWhile Q sfx) @ dropWhile Q sfx)"
    by (simp only: append_assoc)
  then obtain r where "sfx = ?t @ r" ..
  then have "pre @ sfx = pre @ ?t @ r"
    by simp
  then have "filter A pre @ filter A ?t @ filter A r = [x]"
    using assms by (metis filter_append)
  then show ?thesis
    by (cases "filter A pre"; cases "filter A ?t") simp_all
qed

lemma log_frames_sent:
  "filter is_log_artifact fs = filter is_log_artifact (frames_sent fs)"
  by (auto simp add: frames_sent_def is_log_artifact_def intro: filter_cong)

lemma filter_single_end:
  assumes "filter A x = []" and "A l" and "\<not> A c"
  shows "filter A (x @ [l, c]) = [l]"
  using assms by simp

lemma filter_none:
  assumes "\<forall>y \<in> set x. Q y \<and> \<not> A y"
  shows "filter A x = []"
  using assms by (induction x) simp_all

section \<open>What the bus and its subscribers see\<close>

lemma exit_states:
  "monitor_states exit_env job0 =
     (let s = push ''status'' [(''state'', JStr ''started'')] job0;
          x = s\<lparr>process := \<lparr>returncode = Some 0, signals = []\<rparr>\<rparr>;
          f = push ''status'' [(''state'', JStr ''finished''), (''code'', JInt 0)] x;
          a = push ''artifact''
                (artifact_data ''log'' ''run.log'' ''run.log'' (job_id job0 @ ''/run.log'')) f
      in [job0, s, x, x, x, x, x, f, a, a\<lparr>finished_at := 5\<rparr>,
          a\<lparr>finished_at := 5, done_flag := True\<rparr>,
          push ''close'' [] (a\<lparr>finished_at := 5, done_flag := True\<rparr>)])"
proof -
  have r: "returncode (process (push ''status'' [(''state'', JStr ''started'')] job0)) = None"
    by (simp add: job0_def new_job_def)
  show ?thesis
    unfolding monitor_states_def Let_def
    using r
    apply (simp add: exit_loop_any)
    apply (simp add: exit_env_def monitor_cycle_exited)
    apply (simp add: finalize_states_def exit_data_def json_code_def relative_to_def
        path_name_def Let_def job0_def new_job_def push_def)
    done
qed

text \<open>
  Claim C1 as stated fails. In the run where the subprocess exits with code 0, the drain
  thread of the output stream may push the log event of its last line after the monitor
  has pushed the close event, or between the terminal status and the artifact event of
  the run log. Both orders are orders the bus can receive and neither is the claimed
  order; the second is delivered as it is to a subscriber attached from submission, whose
  stream sends the log frame between the finished frame and the frame of the run log. In
  the run that times out, a subscriber attached from submission has the four events of the
  monitor scheduled for its queue, and when its wait expires with \<open>done\<close> set it has been
  sent the started frame only.
\<close>

theorem C1_log_after_close:
  "(case monitor_job exit_env job0 of
      Returned j' \<Rightarrow>
        queue j' @ [late_log] \<in>
          interleavings (pushed job0 j')
            (pushed job0 (pipe_output job0 (Some [''bye'' @ [CHR 0x0A]]) ''stdout''))
            (pushed job0 (pipe_output job0 (Some []) ''stderr'')) \<and>
        \<not> claimed_order (queue j' @ [late_log]) \<and>
        log_before_artifact \<in>
          interleavings (pushed job0 j')
            (pushed job0 (pipe_output job0 (Some [''bye'' @ [CHR 0x0A]]) ''stdout''))
            (pushed job0 (pipe_output job0 (Some []) ''stderr'')) \<and>
        \<not> claimed_order log_before_artifact \<and>
        subscriber_queue (fst (subscribe job0)) (deliver log_before_artifact (snd (subscribe job0))) =
          Some log_before_artifact \<and>
        event_stream [] (map Got log_before_artifact) (snd (subscribe job0)) =
          (map frame_of [started_msg, exit_finished, late_log, run_log_msg (job_id job0)], True)
    | _ \<Rightarrow> False) \<and>
   (case monitor_job timeout_env (snd (subscribe job0)) of
      Returned j' \<Rightarrow>
        subscriber_queue (fst (subscribe job0)) j' =
          Some [started_msg, Msg ''status'' timeout_data, run_log_msg (job_id job0),
                Msg ''close'' []]
    | _ \<Rightarrow> False) \<and>
   frames_sent (fst (event_stream [] silent_feed (snd (subscribe job0)))) = [frame_of started_msg] \<and>
   snd (event_stream [] silent_feed (snd (subscribe job0)))"
proof -
  have s: "subscriber_queue (fst (subscribe job0)) (deliver log_before_artifact (snd (subscribe job0))) =
          Some log_before_artifact"
    by (rule subscribe_receives)
  have nd: "\<not> done_flag (snd (subscribe job0))"
    by (simp add: subscribe_not_done job0_def new_job_def)
  then have e: "event_stream [] (map Got log_before_artifact) (snd (subscribe job0)) =
          (map frame_of [started_msg, exit_finished, late_log, run_log_msg (job_id job0)], True)"
    by (simp add: event_stream_def log_before_artifact_def frame_of_def started_msg_def
        exit_finished_def late_log_def run_log_msg_def)
  have 1: "case monitor_job exit_env job0 of
      Returned j' \<Rightarrow>
        queue j' @ [late_log] \<in>
          interleavings (pushed job0 j')
            (pushed job0 (pipe_output job0 (Some [''bye'' @ [CHR 0x0A]]) ''stdout''))
            (pushed job0 (pipe_output job0 (Some []) ''stderr'')) \<and>
        \<not> claimed_order (queue j' @ [late_log]) \<and>
        log_before_artifact \<in>
          interleavings (pushed job0 j')
            (pushed job0 (pipe_output job0 (Some [''bye'' @ [CHR 0x0A]]) ''stdout''))
            (pushed job0 (pipe_output job0 (Some []) ''stderr'')) \<and>
        \<not> claimed_order log_before_artifact \<and>
        subscriber_queue (fst (subscribe job0)) (deliver log_before_artifact (snd (subscribe job0))) =
          Some log_before_artifact \<and>
        event_stream [] (map Got log_before_artifact) (snd (subscribe job0)) =
          (map frame_of [started_msg, exit_finished, late_log, run_log_msg (job_id job0)], True)
    | _ \<Rightarrow> False"
    unfolding exit_run stdout_bye stderr_nothing
    using s e
    by (simp add: pushed_def job0_def new_job_def interleavings_def claimed_order_def
        log_before_artifact_def exit_finished_def
        late_log_def started_msg_def run_log_msg_def msg_kind_def artifact_data_def)
  have 2: "frames_sent (fst (event_stream [] silent_feed (snd (subscribe job0)))) =
      [frame_of started_msg]"
    and 3: "snd (event_stream [] silent_feed (snd (subscribe job0)))"
    unfolding silent_stream [OF nd] by (simp_all add: frames_sent_silent)
  show ?thesis
    using 1 timeout_run_subscribed 2 3 by (intro conjI)
qed

text \<open>
  Claim C1, as amended. For a job made by \<open>run_job\<close>, once the observations reach a cycle
  past the timeout budget with three more after it, the monitor returns, and the events it
  has published are, in order: the started status, artifact events of the scanner (none
  of kind \<open>log\<close>), one finished status, the artifact event of the run log, and the close
  event, with nothing after it. Among the states the monitor leaves, \<open>done\<close> is unset up to
  and including the push of the artifact event of the run log, then it is set, and the only
  push after that is the close event. Log events come from the two drain threads, which
  the monitor starts after its first push and never joins. In every order in which the bus
  can receive the messages, the first event is the started status, the events other than
  log events are exactly the monitor's sequence, and after the artifact event of the run
  log, hence once \<open>done\<close> is set, only log events and the close event occur. A subscriber
  that attaches at any point has exactly the messages pushed from then on scheduled for
  its queue, in the order of the pushes; the frames it is sent are always an initial part
  of these messages up to the close event, in that order, and they are all of them when
  its stream is ended by the close event. The monitor itself schedules each of its
  messages for every subscriber of the job.
\<close>

theorem C1_monitor_order:
  assumes "n + 4 \<le> length (cycles e)"
    and "real JOB_TIMEOUT_SECONDS < obs_now (cycles e ! n) - t0"
  shows "\<exists>j' arts fd before jd.
           monitor_job e (new_job outputs jid t0) = Returned j' \<and>
           pushed (new_job outputs jid t0) j' =
             started_msg # arts @ [Msg ''status'' fd, run_log_msg jid, Msg ''close'' []] \<and>
           list_all (\<lambda>m. event m = ''artifact'' \<and> msg_kind m \<noteq> Some (JStr ''log'')) arts \<and>
           map_of fd ''state'' = Some (JStr ''finished'') \<and>
           monitor_states e (new_job outputs jid t0) = before @ [jd, j'] \<and>
           list_all (\<lambda>s. \<not> done_flag s) before \<and> done_flag jd \<and> done_flag j' \<and>
           pushed (new_job outputs jid t0) jd =
             started_msg # arts @ [Msg ''status'' fd, run_log_msg jid] \<and>
           pushed jd j' = [Msg ''close'' []] \<and>
           (\<forall>out err. \<forall>bus \<in> interleavings (pushed (new_job outputs jid t0) j')
                 (pushed (new_job outputs jid t0) (pipe_output (new_job outputs jid t0) out ''stdout''))
                 (pushed (new_job outputs jid t0) (pipe_output (new_job outputs jid t0) err ''stderr'')).
              hd bus = started_msg \<and>
              filter (\<lambda>m. event m \<noteq> ''log'') bus = pushed (new_job outputs jid t0) j' \<and>
              (\<exists>a b. bus = a @ run_log_msg jid # b \<and>
                 list_all (\<lambda>m. event m = ''log'' \<or> m = Msg ''close'' []) b) \<and>
              (\<forall>pre sfx. bus = pre @ sfx \<longrightarrow>
                 subscriber_queue (fst (subscribe (deliver pre (new_job outputs jid t0))))
                   (deliver sfx (snd (subscribe (deliver pre (new_job outputs jid t0))))) = Some sfx \<and>
                 (\<forall>order items rest.
                    sfx = gots items @ rest \<longrightarrow>
                      (\<exists>k. frames_sent (fst (event_stream order items
                            (snd (subscribe (deliver pre (new_job outputs jid t0)))))) =
                          map frame_of (take k (takeWhile (\<lambda>m. event m \<noteq> ''close'') sfx)))) \<and>
                 (\<forall>order items rest.
                    sfx = gots items @ rest \<and> (\<exists>m \<in> set (gots items). event m = ''close'') \<and>
                    Wait_expired True \<notin> set items \<longrightarrow>
                      snd (event_stream order items (snd (subscribe (deliver pre (new_job outputs jid t0))))) \<and>
                      frames_sent (fst (event_stream order items
                          (snd (subscribe (deliver pre (new_job outputs jid t0)))))) =
                        map frame_of (takeWhile (\<lambda>m. event m \<noteq> ''close'') sfx)))) \<and>
           (\<forall>j j2. monitor_job e j = Returned j2 \<longrightarrow>
              queue j2 = queue j @ pushed j j2 \<and>
              subscribers j2 = map (\<lambda>(h, q). (h, q @ pushed j j2)) (subscribers j))"
proof -
  let ?j = "new_job outputs jid t0"
  let ?P = "\<lambda>m. event m \<noteq> ''log''"
  let ?Q = "\<lambda>m. event m \<noteq> ''close''"
  have nd: "\<not> done_flag ?j" and q0: "queue ?j = []"
    by (simp_all add: new_job_def)
  obtain j' where ret: "monitor_job e ?j = Returned j'"
    using monitor_job_returns [OF assms] by blast
  from new_job_monitored [OF ret] obtain arts fd where
    q: "queue j' = started_msg # arts @ [Msg ''status'' fd, run_log_msg jid, Msg ''close'' []]"
    and fd: "map_of fd ''state'' = Some (JStr ''finished'')"
    and arts: "\<forall>m \<in> set arts. event m = ''artifact'' \<and>
              (\<exists>p. msg_path m = Some (JStr p) \<and> msg_kind m = Some (JStr (classify_artifact p)))"
    and dn: "done_flag j'"
    by (elim exE conjE) (rule that)
  let ?mon = "started_msg # arts @ [Msg ''status'' fd, run_log_msg jid, Msg ''close'' []]"
  have p: "pushed ?j j' = ?mon"
    using q q0 by (simp add: pushed_def)
  have a: "list_all (\<lambda>m. event m = ''artifact'' \<and> msg_kind m \<noteq> Some (JStr ''log'')) arts"
    using arts kind_not_log by (auto simp add: list_all_iff)
  from monitor_states_returned [OF ret nd] obtain before jd where
    st: "monitor_states e ?j = before @ [jd, j']"
    and bf: "list_all (\<lambda>s. \<not> done_flag s) before" and djd: "done_flag jd"
    and qd: "queue j' = queue jd @ [Msg ''close'' []]"
    by blast
  have "queue jd @ [Msg ''close'' []] =
      (started_msg # arts @ [Msg ''status'' fd, run_log_msg jid]) @ [Msg ''close'' []]"
    using q qd by simp
  then have qjd: "queue jd = started_msg # arts @ [Msg ''status'' fd, run_log_msg jid]"
    by (simp only: append_same_eq)
  have pd: "pushed ?j jd = started_msg # arts @ [Msg ''status'' fd, run_log_msg jid]"
    using qjd q0 by (simp add: pushed_def)
  have pc: "pushed jd j' = [Msg ''close'' []]"
    using qd by (simp add: pushed_def)
  have nolog: "\<forall>x \<in> set ?mon. event x \<noteq> ''log''"
    using arts by (auto simp add: started_msg_def run_log_msg_def)
  have bus: "hd bus = started_msg \<and> filter ?P bus = ?mon \<and>
      (\<exists>a b. bus = a @ run_log_msg jid # b \<and>
         list_all (\<lambda>m. event m = ''log'' \<or> m = Msg ''close'' []) b)"
    if b: "bus \<in> interleavings ?mon (pushed ?j (pipe_output ?j out ''stdout''))
          (pushed ?j (pipe_output ?j err ''stderr''))" for bus out err
  proof -
    have f: "hd bus = started_msg \<and> filter ?P bus = ?mon"
      using b nolog pipe_output_logs pipe_output_logs by (rule interleavings_filter)
    then have "filter ?P bus =
        (started_msg # arts @ [Msg ''status'' fd]) @ [run_log_msg jid, Msg ''close'' []]"
      by simp
    then have "\<exists>a b. bus = a @ run_log_msg jid # b \<and> filter ?P b = [Msg ''close'' []]"
      by (rule filter_ends)
    then obtain a b where ab: "bus = a @ run_log_msg jid # b" and fb: "filter ?P b = [Msg ''close'' []]"
      by (elim exE conjE) (rule that)
    have "event m = ''log'' \<or> m = Msg ''close'' []" if "m \<in> set b" for m
    proof (cases "event m = ''log''")
      case True
      then show ?thesis by simp
    next
      case False
      then have "m \<in> set (filter ?P b)" using that by simp
      then show ?thesis using fb by simp
    qed
    then have "list_all (\<lambda>m. event m = ''log'' \<or> m = Msg ''close'' []) b"
      by (simp add: list_all_iff)
    then show ?thesis
      using f ab by blast
  qed
  have sub: "subscriber_queue (fst (subscribe (deliver pre ?j)))
                   (deliver sfx (snd (subscribe (deliver pre ?j)))) = Some sfx" for pre sfx
    by (rule subscribe_receives)
  have live: "snd (event_stream order items (snd (subscribe (deliver pre ?j)))) \<and>
        frames_sent (fst (event_stream order items (snd (subscribe (deliver pre ?j))))) =
          map frame_of (takeWhile ?Q sfx)"
    if r: "sfx = gots items @ rest" and c: "\<exists>m \<in> set (gots items). event m = ''close''"
      and w: "Wait_expired True \<notin> set items" for pre sfx order items rest
  proof -
    have "\<not> done_flag (snd (subscribe (deliver pre ?j)))"
      using nd by (simp add: subscribe_not_done)
    then have es: "event_stream order items (snd (subscribe (deliver pre ?j))) = live_stream items"
      by (simp add: event_stream_def)
    have "takeWhile ?Q (gots items) = takeWhile ?Q sfx"
      using r c by (intro takeWhile_read [of sfx "gots items" rest]) auto
    then show ?thesis
      unfolding es using live_stream_sent [OF w] live_stream_ended [OF w c] by simp
  qed
  have inorder: "\<exists>k. frames_sent (fst (event_stream order items
                            (snd (subscribe (deliver pre ?j))))) =
                          map frame_of (take k (takeWhile ?Q sfx))"
    if r: "sfx = gots items @ rest" for pre sfx order items rest
  proof -
    have "\<not> done_flag (snd (subscribe (deliver pre ?j)))"
      using nd by (simp add: subscribe_not_done)
    then have es: "event_stream order items (snd (subscribe (deliver pre ?j))) = live_stream items"
      by (simp add: event_stream_def)
    show ?thesis
      unfolding es using r by (rule live_stream_in_order)
  qed
  have del: "queue j2 = queue j @ pushed j j2 \<and>
      subscribers j2 = map (\<lambda>(h, q). (h, q @ pushed j j2)) (subscribers j)"
    if "monitor_job e j = Returned j2" for j j2
    using monitor_job_delivered [OF that] by (simp add: delivered_def)
  have all_bus: "\<forall>out err. \<forall>bus \<in> interleavings (pushed ?j j')
                 (pushed ?j (pipe_output ?j out ''stdout''))
                 (pushed ?j (pipe_output ?j err ''stderr'')).
              hd bus = started_msg \<and>
              filter ?P bus = pushed ?j j' \<and>
              (\<exists>a b. bus = a @ run_log_msg jid # b \<and>
                 list_all (\<lambda>m. event m = ''log'' \<or> m = Msg ''close'' []) b) \<and>
              (\<forall>pre sfx. bus = pre @ sfx \<longrightarrow>
                 subscriber_queue (fst (subscribe (deliver pre ?j)))
                   (deliver sfx (snd (subscribe (deliver pre ?j)))) = Some sfx \<and>
                 (\<forall>order items rest.
                    sfx = gots items @ rest \<longrightarrow>
                      (\<exists>k. frames_sent (fst (event_stream order items
                            (snd (subscribe (deliver pre ?j))))) =
                          map frame_of (take k (takeWhile ?Q sfx)))) \<and>
                 (\<forall>order items rest.
                    sfx = gots items @ rest \<and> (\<exists>m \<in> set (gots items). event m = ''close'') \<and>
                    Wait_expired True \<notin> set items \<longrightarrow>
                      snd (event_stream order items (snd (subscribe (deliver pre ?j)))) \<and>
                      frames_sent (fst (event_stream order items
                          (snd (subscribe (deliver pre ?j))))) =
                        map frame_of (takeWhile ?Q sfx)))"
  proof (intro allI ballI)
    fix out err bus
    assume "bus \<in> interleavings (pushed ?j j') (pushed ?j (pipe_output ?j out ''stdout''))
        (pushed ?j (pipe_output ?j err ''stderr''))"
    then have b: "bus \<in> interleavings ?mon (pushed ?j (pipe_output ?j out ''stdout''))
        (pushed ?j (pipe_output ?j err ''stderr''))"
      by (simp only: p)
    note f = bus [OF b]
    have 1: "hd bus = started_msg"
      using f by (rule conjunct1)
    have 2: "filter ?P bus = pushed ?j j'"
      using f unfolding p by (elim conjE)
    have 3: "\<exists>a b. bus = a @ run_log_msg jid # b \<and>
                 list_all (\<lambda>m. event m = ''log'' \<or> m = Msg ''close'' []) b"
      using f by (elim conjE)
    have 4: "\<forall>pre sfx. bus = pre @ sfx \<longrightarrow>
                 subscriber_queue (fst (subscribe (deliver pre ?j)))
                   (deliver sfx (snd (subscribe (deliver pre ?j)))) = Some sfx \<and>
                 (\<forall>order items rest.
                    sfx = gots items @ rest \<longrightarrow>
                      (\<exists>k. frames_sent (fst (event_stream order items
                            (snd (subscribe (deliver pre ?j))))) =
                          map frame_of (take k (takeWhile ?Q sfx)))) \<and>
                 (\<forall>order items rest.
                    sfx = gots items @ rest \<and> (\<exists>m \<in> set (gots items). event m = ''close'') \<and>
                    Wait_expired True \<notin> set items \<longrightarrow>
                      snd (event_stream order items (snd (subscribe (deliver pre ?j)))) \<and>
                      frames_sent (fst (event_stream order items
                          (snd (subscribe (deliver pre ?j))))) =
                        map frame_of (takeWhile ?Q sfx))"
    proof (intro allI impI conjI)
      fix pre sfx
      show "subscriber_queue (fst (subscribe (deliver pre ?j)))
                   (deliver sfx (snd (subscribe (deliver pre ?j)))) = Some sfx"
        by (rule sub)
    next
      fix pre sfx order items rest
      assume "sfx = gots items @ rest"
      then show "\<exists>k. frames_sent (fst (event_stream order items
                            (snd (subscribe (deliver pre ?j))))) =
                          map frame_of (take k (takeWhile ?Q sfx))"
        by (rule inorder)
    next
      fix pre sfx order items rest
      assume h: "sfx = gots items @ rest \<and> (\<exists>m \<in> set (gots items). event m = ''close'') \<and>
                    Wait_expired True \<notin> set items"
      have l: "snd (event_stream order items (snd (subscribe (deliver pre ?j)))) \<and>
          frames_sent (fst (event_stream order items (snd (subscribe (deliver pre ?j))))) =
            map frame_of (takeWhile ?Q sfx)"
        using h by (intro live [of sfx items rest]) (elim conjE, assumption)+
      show "snd (event_stream order items (snd (subscribe (deliver pre ?j))))"
        using l by (rule conjunct1)
      show "frames_sent (fst (event_stream order items (snd (subscribe (deliver pre ?j))))) =
            map frame_of (takeWhile ?Q sfx)"
        using l by (rule conjunct2)
    qed
    show "hd bus = started_msg \<and>
              filter ?P bus = pushed ?j j' \<and>
              (\<exists>a b. bus = a @ run_log_msg jid # b \<and>
                 list_all (\<lambda>m. event m = ''log'' \<or> m = Msg ''close'' []) b) \<and>
              (\<forall>pre sfx. bus = pre @ sfx \<longrightarrow>
                 subscriber_queue (fst (subscribe (deliver pre ?j)))
                   (deliver sfx (snd (subscribe (deliver pre ?j)))) = Some sfx \<and>
                 (\<forall>order items rest.
                    sfx = gots items @ rest \<longrightarrow>
                      (\<exists>k. frames_sent (fst (event_stream order items
                            (snd (subscribe (deliver pre ?j))))) =
                          map frame_of (take k (takeWhile ?Q sfx)))) \<and>
                 (\<forall>order items rest.
                    sfx = gots items @ rest \<and> (\<exists>m \<in> set (gots items). event m = ''close'') \<and>
                    Wait_expired True \<notin> set items \<longrightarrow>
                      snd (event_stream order items (snd (subscribe (deliver pre ?j)))) \<and>
                      frames_sent (fst (event_stream order items
                          (snd (subscribe (deliver pre ?j))))) =
                        map frame_of (takeWhile ?Q sfx)))"
      using 1 2 3 4 by (intro conjI)
  qed
  have all_del: "\<forall>j j2. monitor_job e j = Returned j2 \<longrightarrow>
              queue j2 = queue j @ pushed j j2 \<and>
              subscribers j2 = map (\<lambda>(h, q). (h, q @ pushed j j2)) (subscribers j)"
    using del by (intro allI impI)
  show ?thesis
    apply (rule exI [of _ j'], rule exI [of _ arts], rule exI [of _ fd],
        rule exI [of _ before], rule exI [of _ jd])
    using ret p a fd st bf djd dn pd pc all_bus all_del
    by (intro conjI)
qed

theorem C1_monitor_order_witness:
  "\<exists>j' arts fd before jd.
           monitor_job timeout_env job0 = Returned j' \<and>
           pushed job0 j' =
             started_msg # arts @ [Msg ''status'' fd, run_log_msg (job_id job0), Msg ''close'' []] \<and>
           list_all (\<lambda>m. event m = ''artifact'' \<and> msg_kind m \<noteq> Some (JStr ''log'')) arts \<and>
           map_of fd ''state'' = Some (JStr ''finished'') \<and>
           monitor_states timeout_env job0 = before @ [jd, j'] \<and>
           list_all (\<lambda>s. \<not> done_flag s) before \<and> done_flag jd \<and> done_flag j' \<and>
           pushed job0 jd =
             started_msg # arts @ [Msg ''status'' fd, run_log_msg (job_id job0)] \<and>
           pushed jd j' = [Msg ''close'' []] \<and>
           (\<forall>out err. \<forall>bus \<in> interleavings (pushed job0 j')
                 (pushed job0 (pipe_output job0 out ''stdout''))
                 (pushed job0 (pipe_output job0 err ''stderr'')).
              hd bus = started_msg \<and>
              filter (\<lambda>m. event m \<noteq> ''log'') bus = pushed job0 j' \<and>
              (\<exists>a b. bus = a @ run_log_msg (job_id job0) # b \<and>
                 list_all (\<lambda>m. event m = ''log'' \<or> m = Msg ''close'' []) b) \<and>
              (\<forall>pre sfx. bus = pre @ sfx \<longrightarrow>
                 subscriber_queue (fst (subscribe (deliver pre job0)))
                   (deliver sfx (snd (subscribe (deliver pre job0)))) = Some sfx \<and>
                 (\<forall>order items rest.
                    sfx = gots items @ rest \<longrightarrow>
                      (\<exists>k. frames_sent (fst (event_stream order items
                            (snd (subscribe (deliver pre job0))))) =
                          map frame_of (take k (takeWhile (\<lambda>m. event m \<noteq> ''close'') sfx)))) \<and>
                 (\<forall>order items rest.
                    sfx = gots items @ rest \<and> (\<exists>m \<in> set (gots items). event m = ''close'') \<and>
                    Wait_expired True \<notin> set items \<longrightarrow>
                      snd (event_stream order items (snd (subscribe (deliver pre job0)))) \<and>
                      frames_sent (fst (event_stream order items
                          (snd (subscribe (deliver pre job0))))) =
                        map frame_of (takeWhile (\<lambda>m. event m \<noteq> ''close'') sfx)))) \<and>
           (\<forall>j j2. monitor_job timeout_env j = Returned j2 \<longrightarrow>
              queue j2 = queue j @ pushed j j2 \<and>
              subscribers j2 = map (\<lambda>(h, q). (h, q @ pushed j j2)) (subscribers j))"
proof -
  have 1: "0 + 4 \<le> length (cycles timeout_env)"
    by (simp add: timeout_env_def)
  have 2: "real JOB_TIMEOUT_SECONDS < obs_now (cycles timeout_env ! 0) - 0"
    by (simp add: timeout_env_def alive_obs_def JOB_TIMEOUT_SECONDS_def)
  have 3: "job_id job0 = ''20240101_000000_0a1b2c3d''"
    by (simp add: job0_def new_job_def)
  show ?thesis
    unfolding 3 unfolding job0_def
    by (rule C1_monitor_order [OF 1 2])
qed

section \<open>The run log\<close>

lemma after_log_push_eq:
  "after_log_push =
     push ''artifact'' (artifact_data ''log'' ''run.log'' ''run.log'' (job_id job0 @ ''/run.log''))
       (push ''status'' [(''state'', JStr ''finished''), (''code'', JInt 0)]
          ((push ''status'' [(''state'', JStr ''started'')] job0)
             \<lparr>process := \<lparr>returncode = Some 0, signals = []\<rparr>\<rparr>))"
  unfolding after_log_push_def exit_states by (simp add: Let_def)

text \<open>
  Claim C10 as stated fails for the live subscriber. In the run \<open>exit_env\<close>, a subscriber
  that attaches when the monitor has pushed the artifact event of the run log and has not
  yet set \<open>done\<close> is attached during the run, takes the live path, has only the close
  event scheduled for its queue and is sent no frame. In the run that times out, a
  subscriber attached from submission has the artifact event of the run log scheduled for
  its queue; when its sixty-first wait expires with \<open>done\<close> set before it has read that
  event, its stream ends after the started frame and sixty keepalives. Neither is sent an
  artifact frame of kind \<open>log\<close>.
\<close>

theorem C10_no_log_artifact_frame:
  "pushed job0 after_log_push = [started_msg, exit_finished, run_log_msg (job_id job0)] \<and>
   \<not> done_flag after_log_push \<and>
   drop 9 (monitor_states exit_env job0) =
     [after_log_push\<lparr>finished_at := 5\<rparr>,
      after_log_push\<lparr>finished_at := 5, done_flag := True\<rparr>,
      push ''close'' [] (after_log_push\<lparr>finished_at := 5, done_flag := True\<rparr>)] \<and>
   subscriber_queue (fst (subscribe after_log_push))
     (push ''close'' [] ((snd (subscribe after_log_push))\<lparr>finished_at := 5, done_flag := True\<rparr>)) =
     Some [Msg ''close'' []] \<and>
   event_stream [] [Got (Msg ''close'' [])] (snd (subscribe after_log_push)) = ([], True) \<and>
   filter is_log_artifact
     (fst (event_stream [] [Got (Msg ''close'' [])] (snd (subscribe after_log_push)))) = [] \<and>
   (case monitor_job timeout_env (snd (subscribe job0)) of
      Returned j' \<Rightarrow>
        subscriber_queue (fst (subscribe job0)) j' =
          Some [started_msg, Msg ''status'' timeout_data, run_log_msg (job_id job0),
                Msg ''close'' []]
    | _ \<Rightarrow> False) \<and>
   event_stream [] silent_feed (snd (subscribe job0)) =
     (frame_of started_msg # replicate 60 Keepalive, True) \<and>
   filter is_log_artifact (fst (event_stream [] silent_feed (snd (subscribe job0)))) = []"
proof -
  have 1: "pushed job0 after_log_push = [started_msg, exit_finished, run_log_msg (job_id job0)]"
    and 2: "\<not> done_flag after_log_push"
    unfolding after_log_push_eq
    by (simp_all add: pushed_def job0_def new_job_def started_msg_def exit_finished_def
        run_log_msg_def)
  have 3: "drop 9 (monitor_states exit_env job0) =
     [after_log_push\<lparr>finished_at := 5\<rparr>,
      after_log_push\<lparr>finished_at := 5, done_flag := True\<rparr>,
      push ''close'' [] (after_log_push\<lparr>finished_at := 5, done_flag := True\<rparr>)]"
    unfolding after_log_push_eq exit_states by (simp add: Let_def)
  have "subscriber_queue (fst (subscribe after_log_push))
      (deliver [Msg ''close'' []] (snd (subscribe after_log_push))) = Some [Msg ''close'' []]"
    by (rule subscribe_receives)
  then have 4: "subscriber_queue (fst (subscribe after_log_push))
     (push ''close'' [] ((snd (subscribe after_log_push))\<lparr>finished_at := 5, done_flag := True\<rparr>)) =
     Some [Msg ''close'' []]"
    by (simp add: deliver_def subscriber_queue_def push_def)
  have "\<not> done_flag (snd (subscribe after_log_push))"
    using 2 by (simp add: subscribe_not_done)
  then have 5: "event_stream [] [Got (Msg ''close'' [])] (snd (subscribe after_log_push)) = ([], True)"
    by (simp add: event_stream_def)
  have "\<not> done_flag (snd (subscribe job0))"
    by (simp add: subscribe_not_done job0_def new_job_def)
  then have 6: "event_stream [] silent_feed (snd (subscribe job0)) =
     (frame_of started_msg # replicate 60 Keepalive, True)"
    by (rule silent_stream)
  have 7: "filter is_log_artifact (fst (event_stream [] [Got (Msg ''close'' [])]
      (snd (subscribe after_log_push)))) = []"
    unfolding 5 by simp
  have 8: "filter is_log_artifact (fst (event_stream [] silent_feed (snd (subscribe job0)))) = []"
    unfolding 6 by (simp add: is_log_artifact_def frame_of_def started_msg_def)
  show ?thesis
    using 1 2 3 4 5 7 timeout_run_subscribed 6 8 by (intro conjI)
qed

text \<open>
  Claim C10, as amended. For a job made by \<open>run_job\<close>, no sequence of scans puts
  \<open>run.log\<close> into \<open>seen\<close>. Once the observations reach a cycle past the timeout budget
  with three more after it, the monitor returns with \<open>run.log\<close> not in \<open>seen\<close>. In
  whatever order the bus receives the messages of the three threads, a subscriber that
  attaches during the run has the messages pushed from then on scheduled for its queue, and
  it is sent at most one frame that announces an artifact of kind \<open>log\<close>, the one of the
  run log; it is sent exactly one when it attaches before the artifact event of the run
  log is pushed and its stream is ended by the close event. In the replay to a subscriber
  that attaches after completion no frame has the path \<open>run.log\<close> and none announces an
  artifact of kind \<open>log\<close>.
\<close>

theorem C10_run_log_outside_seen:
  assumes "n + 4 \<le> length (cycles e)"
    and "real JOB_TIMEOUT_SECONDS < obs_now (cycles e ! n) - t0"
  shows "''run.log'' \<notin> seen (fold scan_artifacts fss (new_job outputs jid t0)) \<and>
    (\<exists>j'. monitor_job e (new_job outputs jid t0) = Returned j' \<and> ''run.log'' \<notin> seen j' \<and>
       (\<forall>out err pre sfx.
          pre @ sfx \<in> interleavings (pushed (new_job outputs jid t0) j')
              (pushed (new_job outputs jid t0) (pipe_output (new_job outputs jid t0) out ''stdout''))
              (pushed (new_job outputs jid t0) (pipe_output (new_job outputs jid t0) err ''stderr'')) \<longrightarrow>
            subscriber_queue (fst (subscribe (deliver pre (new_job outputs jid t0))))
              (deliver sfx (snd (subscribe (deliver pre (new_job outputs jid t0))))) = Some sfx \<and>
            (\<forall>order items rest.
               sfx = gots items @ rest \<longrightarrow>
                 (filter is_log_artifact
                    (fst (event_stream order items
                       (snd (subscribe (deliver pre (new_job outputs jid t0)))))) = [] \<or>
                  filter is_log_artifact
                    (fst (event_stream order items
                       (snd (subscribe (deliver pre (new_job outputs jid t0)))))) =
                    [frame_of (run_log_msg jid)]) \<and>
                 (run_log_msg jid \<notin> set pre \<and> (\<exists>m \<in> set (gots items). event m = ''close'') \<and>
                  Wait_expired True \<notin> set items \<longrightarrow>
                    filter is_log_artifact
                      (fst (event_stream order items
                         (snd (subscribe (deliver pre (new_job outputs jid t0)))))) =
                      [frame_of (run_log_msg jid)]))) \<and>
       (\<forall>order items. set order = seen j' \<longrightarrow>
          list_all (\<lambda>f. frame_field ''path'' f \<noteq> Some (JStr ''run.log'') \<and> \<not> is_log_artifact f)
            (fst (event_stream order items j'))))"
proof -
  let ?j = "new_job outputs jid t0"
  let ?P = "\<lambda>m. event m \<noteq> ''log''"
  let ?Q = "\<lambda>m. event m \<noteq> ''close''"
  let ?A = "\<lambda>m. event m = ''artifact'' \<and> msg_kind m = Some (JStr ''log'')"
  have s0: "''run.log'' \<notin> seen ?j" and nd: "\<not> done_flag ?j"
    by (simp_all add: new_job_def)
  have first: "''run.log'' \<notin> seen (fold scan_artifacts fss ?j)"
    using s0 by (rule scans_no_run_log)
  obtain j' where ret: "monitor_job e ?j = Returned j'"
    using monitor_job_returns [OF assms] by blast
  have nl: "''run.log'' \<notin> seen j'"
    using ret s0 by (rule monitor_job_no_run_log)
  from new_job_monitored [OF ret] obtain arts fd where
    q: "queue j' = started_msg # arts @ [Msg ''status'' fd, run_log_msg jid, Msg ''close'' []]"
    and arts: "\<forall>m \<in> set arts. event m = ''artifact'' \<and>
              (\<exists>p. msg_path m = Some (JStr p) \<and> msg_kind m = Some (JStr (classify_artifact p)))"
    and dn: "done_flag j'"
    by (elim exE conjE) (rule that)
  let ?x = "started_msg # arts @ [Msg ''status'' fd]"
  have p: "pushed ?j j' = started_msg # (arts @ [Msg ''status'' fd, run_log_msg jid, Msg ''close'' []])"
    using q by (simp add: pushed_def new_job_def)
  have nolog: "\<forall>m \<in> set (started_msg # (arts @ [Msg ''status'' fd, run_log_msg jid, Msg ''close'' []])).
      event m \<noteq> ''log''"
    using arts by (auto simp add: started_msg_def run_log_msg_def)
  have x: "\<forall>y \<in> set ?x. ?Q y \<and> \<not> ?A y"
    using arts kind_not_log by (auto simp add: started_msg_def)
  have al: "?A (run_log_msg jid)"
    by (simp add: run_log_msg_def msg_kind_def artifact_data_def)
  have live_eq: "event_stream order items (snd (subscribe (deliver pre ?j))) = live_stream items"
    for order items pre
  proof -
    have "\<not> done_flag (snd (subscribe (deliver pre ?j)))"
      using nd by (simp add: subscribe_not_done)
    then show ?thesis
      by (simp add: event_stream_def)
  qed
  have mon: "filter ?P (pre @ sfx) = ?x @ [run_log_msg jid, Msg ''close'' []]"
    if bus: "pre @ sfx \<in> interleavings (pushed ?j j')
              (pushed ?j (pipe_output ?j out ''stdout''))
              (pushed ?j (pipe_output ?j err ''stderr''))"
    for out err pre sfx
    using interleavings_filter [OF bus [unfolded p] nolog pipe_output_logs pipe_output_logs]
    by simp
  have most: "filter is_log_artifact
        (fst (event_stream order items (snd (subscribe (deliver pre ?j))))) = [] \<or>
      filter is_log_artifact
        (fst (event_stream order items (snd (subscribe (deliver pre ?j))))) =
      [frame_of (run_log_msg jid)]"
    if bus: "pre @ sfx \<in> interleavings (pushed ?j j')
              (pushed ?j (pipe_output ?j out ''stdout''))
              (pushed ?j (pipe_output ?j err ''stderr''))"
      and r: "sfx = gots items @ rest"
    for out err pre sfx order items rest
  proof -
    have fx: "filter ?A ?x = []"
      using x by (rule filter_none)
    have nc: "\<not> ?A (Msg ''close'' [])"
      by simp
    have "filter ?A (?x @ [run_log_msg jid, Msg ''close'' []]) = [run_log_msg jid]"
      by (rule filter_single_end [of ?A ?x "run_log_msg jid" "Msg ''close'' []", OF fx al nc])
    then have "filter ?A (filter ?P (pre @ sfx)) = [run_log_msg jid]"
      by (simp only: mon [OF bus])
    moreover have "filter ?A (filter ?P (pre @ sfx)) = filter ?A (pre @ sfx)"
      by (rule filter_implied) simp
    ultimately have one: "filter ?A (pre @ sfx) = [run_log_msg jid]"
      by simp
    obtain k where k: "frames_sent (fst (live_stream items)) =
        map frame_of (take k (takeWhile ?Q sfx))"
      using live_stream_in_order [OF r] by blast
    have "filter is_log_artifact (fst (live_stream items)) =
        filter is_log_artifact (frames_sent (fst (live_stream items)))"
      by (rule log_frames_sent)
    also have "\<dots> = map frame_of (filter ?A (take k (takeWhile ?Q sfx)))"
      unfolding k by (simp add: filter_map comp_def is_log_artifact_frame frame_of_def)
    finally have "filter is_log_artifact (fst (live_stream items)) =
        map frame_of (filter ?A (take k (takeWhile ?Q sfx)))" .
    then show ?thesis
      unfolding live_eq using filter_part_single [OF one, of k ?Q] by auto
  qed
  have live: "filter is_log_artifact
        (fst (event_stream order items (snd (subscribe (deliver pre ?j))))) =
      [frame_of (run_log_msg jid)]"
    if bus: "pre @ sfx \<in> interleavings (pushed ?j j')
              (pushed ?j (pipe_output ?j out ''stdout''))
              (pushed ?j (pipe_output ?j err ''stderr''))"
      and pre: "run_log_msg jid \<notin> set pre"
      and r: "sfx = gots items @ rest" and c: "\<exists>m \<in> set (gots items). event m = ''close''"
      and w: "Wait_expired True \<notin> set items"
    for out err pre sfx order items rest
  proof -
    have eq: "filter ?P pre @ filter ?P sfx = ?x @ [run_log_msg jid, Msg ''close'' []]"
      using mon [OF bus] by simp
    have "filter ?A (takeWhile ?Q (filter ?P sfx)) = [run_log_msg jid]"
    proof (rule one_before_close [OF eq])
      show "run_log_msg jid \<notin> set (filter ?P pre)" using pre by simp
      show "\<forall>y \<in> set ?x. ?Q y \<and> \<not> ?A y" by (rule x)
      show "?Q (run_log_msg jid)" by (simp add: run_log_msg_def)
      show "?A (run_log_msg jid)" by (rule al)
      show "\<not> ?Q (Msg ''close'' [])" by simp
    qed
    moreover have "filter ?A (takeWhile ?Q sfx) = filter ?A (takeWhile ?Q (filter ?P sfx))"
      by (rule filter_takeWhile_filter) auto
    moreover have "takeWhile ?Q (gots items) = takeWhile ?Q sfx"
      using r c by (intro takeWhile_read [of sfx "gots items" rest]) auto
    ultimately have one: "filter ?A (takeWhile ?Q (gots items)) = [run_log_msg jid]"
      by simp
    show ?thesis
      unfolding live_eq live_log_artifacts [OF w] one by (simp add: frame_of_def)
  qed
  have rep: "list_all (\<lambda>f. frame_field ''path'' f \<noteq> Some (JStr ''run.log'') \<and> \<not> is_log_artifact f)
            (fst (event_stream order items j'))"
    if "set order = seen j'" for order items
  proof -
    have "''run.log'' \<notin> set order"
      using that nl by simp
    then show ?thesis
      using dn kind_not_log
      by (auto simp add: event_stream_def replay_def list_all_iff is_log_artifact_def
          artifact_data_def exit_data_def)
  qed
  have all_live: "\<forall>out err pre sfx.
          pre @ sfx \<in> interleavings (pushed ?j j')
              (pushed ?j (pipe_output ?j out ''stdout''))
              (pushed ?j (pipe_output ?j err ''stderr'')) \<longrightarrow>
            subscriber_queue (fst (subscribe (deliver pre ?j)))
              (deliver sfx (snd (subscribe (deliver pre ?j)))) = Some sfx \<and>
            (\<forall>order items rest.
               sfx = gots items @ rest \<longrightarrow>
                 (filter is_log_artifact
                    (fst (event_stream order items (snd (subscribe (deliver pre ?j))))) = [] \<or>
                  filter is_log_artifact
                    (fst (event_stream order items (snd (subscribe (deliver pre ?j))))) =
                    [frame_of (run_log_msg jid)]) \<and>
                 (run_log_msg jid \<notin> set pre \<and> (\<exists>m \<in> set (gots items). event m = ''close'') \<and>
                  Wait_expired True \<notin> set items \<longrightarrow>
                    filter is_log_artifact
                      (fst (event_stream order items (snd (subscribe (deliver pre ?j))))) =
                      [frame_of (run_log_msg jid)]))"
  proof (intro allI impI conjI)
    fix pre sfx
    show "subscriber_queue (fst (subscribe (deliver pre ?j)))
              (deliver sfx (snd (subscribe (deliver pre ?j)))) = Some sfx"
      by (rule subscribe_receives)
  next
    fix out err pre sfx order items rest
    assume "pre @ sfx \<in> interleavings (pushed ?j j')
              (pushed ?j (pipe_output ?j out ''stdout''))
              (pushed ?j (pipe_output ?j err ''stderr''))"
      and "sfx = gots items @ rest"
    then show "filter is_log_artifact
                    (fst (event_stream order items (snd (subscribe (deliver pre ?j))))) = [] \<or>
                  filter is_log_artifact
                    (fst (event_stream order items (snd (subscribe (deliver pre ?j))))) =
                    [frame_of (run_log_msg jid)]"
      by (rule most)
  next
    fix out err pre sfx order items rest
    assume h1: "pre @ sfx \<in> interleavings (pushed ?j j')
              (pushed ?j (pipe_output ?j out ''stdout''))
              (pushed ?j (pipe_output ?j err ''stderr''))"
      and h2: "sfx = gots items @ rest"
      and h3: "run_log_msg jid \<notin> set pre \<and> (\<exists>m \<in> set (gots items). event m = ''close'') \<and>
               Wait_expired True \<notin> set items"
    show "filter is_log_artifact
                   (fst (event_stream order items (snd (subscribe (deliver pre ?j))))) =
                   [frame_of (run_log_msg jid)]"
    proof (rule live)
      show "pre @ sfx \<in> interleavings (pushed ?j j')
              (pushed ?j (pipe_output ?j out ''stdout''))
              (pushed ?j (pipe_output ?j err ''stderr''))"
        by (rule h1)
      show "run_log_msg jid \<notin> set pre"
        using h3 by (rule conjunct1)
      show "sfx = gots items @ rest"
        by (rule h2)
      show "\<exists>m \<in> set (gots items). event m = ''close''"
        using h3 by (elim conjE)
      show "Wait_expired True \<notin> set items"
        using h3 by (elim conjE)
    qed
  qed
  have all_rep: "\<forall>order items. set order = seen j' \<longrightarrow>
          list_all (\<lambda>f. frame_field ''path'' f \<noteq> Some (JStr ''run.log'') \<and> \<not> is_log_artifact f)
            (fst (event_stream order items j'))"
    using rep by (intro allI impI)
  have "\<exists>j'. monitor_job e ?j = Returned j' \<and> ''run.log'' \<notin> seen j' \<and>
       (\<forall>out err pre sfx.
          pre @ sfx \<in> interleavings (pushed ?j j')
              (pushed ?j (pipe_output ?j out ''stdout''))
              (pushed ?j (pipe_output ?j err ''stderr'')) \<longrightarrow>
            subscriber_queue (fst (subscribe (deliver pre ?j)))
              (deliver sfx (snd (subscribe (deliver pre ?j)))) = Some sfx \<and>
            (\<forall>order items rest.
               sfx = gots items @ rest \<longrightarrow>
                 (filter is_log_artifact
                    (fst (event_stream order items (snd (subscribe (deliver pre ?j))))) = [] \<or>
                  filter is_log_artifact
                    (fst (event_stream order items (snd (subscribe (deliver pre ?j))))) =
                    [frame_of (run_log_msg jid)]) \<and>
                 (run_log_msg jid \<notin> set pre \<and> (\<exists>m \<in> set (gots items). event m = ''close'') \<and>
                  Wait_expired True \<notin> set items \<longrightarrow>
                    filter is_log_artifact
                      (fst (event_stream order items (snd (subscribe (deliver pre ?j))))) =
                      [frame_of (run_log_msg jid)]))) \<and>
       (\<forall>order items. set order = seen j' \<longrightarrow>
          list_all (\<lambda>f. frame_field ''path'' f \<noteq> Some (JStr ''run.log'') \<and> \<not> is_log_artifact f)
            (fst (event_stream order items j')))"
    using ret nl all_live all_rep by (intro exI [of _ j'] conjI)
  then show ?thesis
    using first by (rule conjI [rotated])
qed

theorem C10_run_log_outside_seen_witness:
  "''run.log'' \<notin> seen (fold scan_artifacts [figure_fs] job0) \<and>
    (\<exists>j'. monitor_job timeout_env job0 = Returned j' \<and> ''run.log'' \<notin> seen j' \<and>
       (\<forall>out err pre sfx.
          pre @ sfx \<in> interleavings (pushed job0 j')
              (pushed job0 (pipe_output job0 out ''stdout''))
              (pushed job0 (pipe_output job0 err ''stderr'')) \<longrightarrow>
            subscriber_queue (fst (subscribe (deliver pre job0)))
              (deliver sfx (snd (subscribe (deliver pre job0)))) = Some sfx \<and>
            (\<forall>order items rest.
               sfx = gots items @ rest \<longrightarrow>
                 (filter is_log_artifact
                    (fst (event_stream order items
                       (snd (subscribe (deliver pre job0))))) = [] \<or>
                  filter is_log_artifact
                    (fst (event_stream order items
                       (snd (subscribe (deliver pre job0))))) =
                    [frame_of (run_log_msg (job_id job0))]) \<and>
                 (run_log_msg (job_id job0) \<notin> set pre \<and>
                  (\<exists>m \<in> set (gots items). event m = ''close'') \<and>
                  Wait_expired True \<notin> set items \<longrightarrow>
                    filter is_log_artifact
                      (fst (event_stream order items
                         (snd (subscribe (deliver pre job0))))) =
                      [frame_of (run_log_msg (job_id job0))]))) \<and>
       (\<forall>order items. set order = seen j' \<longrightarrow>
          list_all (\<lambda>f. frame_field ''path'' f \<noteq> Some (JStr ''run.log'') \<and> \<not> is_log_artifact f)
            (fst (event_stream order items j'))))"
proof -
  have 1: "0 + 4 \<le> length (cycles timeout_env)"
    by (simp add: timeout_env_def)
  have 2: "real JOB_TIMEOUT_SECONDS < obs_now (cycles timeout_env ! 0) - 0"
    by (simp add: timeout_env_def alive_obs_def JOB_TIMEOUT_SECONDS_def)
  have 3: "job_id job0 = ''20240101_000000_0a1b2c3d''"
    by (simp add: job0_def new_job_def)
  show ?thesis
    unfolding 3 unfolding job0_def
    by (rule C10_run_log_outside_seen [OF 1 2])
qed

section \<open>Properties of the request handlers\<close>

text \<open>
  Claim C4, evaluated on a request that resolves into a directory beside the job's output
  directory whose name extends the job's identifier. The string comparison lets it pass:
  the file is served although it is not under the output directory, and when there is no
  such file the answer is the 404 of the file test, not the 400 of the path test.
\<close>

theorem C4_sibling_directory_passes:
  "get_artifact [job_id job0 \<mapsto> job0] sibling_fs (job_id job0) sibling_request = Inr sibling_file \<and>
   \<not> under sibling_file (output_dir job0) \<and>
   get_artifact [job_id job0 \<mapsto> job0] empty_fs (job_id job0) sibling_request =
     Inl (HTTPException 404 ''File not found'')"
  by (simp add: get_artifact_def job0_def new_job_def joinpath_def is_absolute_def startswith_def
      split_path_def resolve_def str_abs_def sibling_request_def sibling_file_def sibling_fs_def
      empty_fs_def under_def)

text \<open>
  Claim C7. For an identifier that is not in the registry the handler answers 404 and
  changes nothing. For a job whose \<open>done\<close> flag is set it answers \<open>already_finished\<close>, not
  an error, and changes nothing. For a job whose flag is not set it answers \<open>cancelled\<close>,
  the flag stays unset, and the registry differs only in that job's subprocess handle: the
  handle has been polled, and a subprocess that is still alive has been sent one more
  termination signal, while one that has exited has been sent nothing.
\<close>

theorem C7_cancel_job:
  "(JOBS jid = None \<longrightarrow> cancel_job JOBS os jid = (Inl (HTTPException 404 detail_no_job), JOBS)) \<and>
   (\<forall>j. JOBS jid = Some j \<and> done_flag j \<longrightarrow>
      cancel_job JOBS os jid = (Inr ''already_finished'', JOBS)) \<and>
   (\<forall>j. JOBS jid = Some j \<and> \<not> done_flag j \<longrightarrow>
      (\<exists>j'. cancel_job JOBS os jid = (Inr ''cancelled'', JOBS(jid \<mapsto> j')) \<and>
            \<not> done_flag j' \<and> j'\<lparr>process := process j\<rparr> = j \<and>
            returncode (process j') =
              (if returncode (process j) = None then os else returncode (process j)) \<and>
            signals (process j') =
              (if returncode (process j') = None then signals (process j) @ [SIGTERM]
               else signals (process j))))"
  by (auto simp add: cancel_job_def terminate_def send_signal_def poll_def Let_def)

theorem C7_cancel_job_witness:
  "cancel_job example_registry None ''zz'' =
     (Inl (HTTPException 404 detail_no_job), example_registry) \<and>
   cancel_job example_registry None ''a'' = (Inr ''already_finished'', example_registry) \<and>
   cancel_job example_registry None ''c'' =
     (Inr ''cancelled'', example_registry(''c'' \<mapsto>
        running_job\<lparr>process := \<lparr>returncode = None, signals = [SIGTERM]\<rparr>\<rparr>)) \<and>
   cancel_job example_registry (Some 0) ''c'' =
     (Inr ''cancelled'', example_registry(''c'' \<mapsto>
        running_job\<lparr>process := \<lparr>returncode = Some 0, signals = []\<rparr>\<rparr>))"
proof -
  have n: "example_registry ''zz'' = None"
    and a: "example_registry ''a'' = Some old_job \<and> done_flag old_job"
    and c: "example_registry ''c'' = Some running_job \<and> \<not> done_flag running_job"
    and p: "process running_job = \<lparr>returncode = None, signals = []\<rparr>"
    by (simp_all add: example_registry_def old_job_def running_job_def new_job_def)
  from C7_cancel_job [of example_registry "''zz''" None] n
  have 1: "cancel_job example_registry None ''zz'' =
      (Inl (HTTPException 404 detail_no_job), example_registry)"
    by simp
  from C7_cancel_job [of example_registry "''a''" None] a
  have 2: "cancel_job example_registry None ''a'' = (Inr ''already_finished'', example_registry)"
    by blast
  have r: "j' = running_job\<lparr>process := \<lparr>returncode = rc, signals = sg\<rparr>\<rparr>"
    if "j'\<lparr>process := process running_job\<rparr> = running_job"
      and "returncode (process j') = rc" and "signals (process j') = sg" for j' rc sg
  proof -
    have "j' = (j'\<lparr>process := process running_job\<rparr>)\<lparr>process := process j'\<rparr>"
      by simp
    also have "\<dots> = running_job\<lparr>process := process j'\<rparr>"
      using that(1) by simp
    also have "process j' = \<lparr>returncode = rc, signals = sg\<rparr>"
      using that(2,3) by (cases "process j'") simp
    finally show ?thesis .
  qed
  from C7_cancel_job [of example_registry "''c''" None] c p
  have 3: "cancel_job example_registry None ''c'' =
     (Inr ''cancelled'', example_registry(''c'' \<mapsto>
        running_job\<lparr>process := \<lparr>returncode = None, signals = [SIGTERM]\<rparr>\<rparr>))"
    using r [of _ None "[SIGTERM]"] by auto
  from C7_cancel_job [of example_registry "''c''" "Some 0"] c p
  have 4: "cancel_job example_registry (Some 0) ''c'' =
     (Inr ''cancelled'', example_registry(''c'' \<mapsto>
        running_job\<lparr>process := \<lparr>returncode = Some 0, signals = []\<rparr>\<rparr>))"
    using r [of _ "Some 0" "[]"] by auto
  show ?thesis
    using 1 2 3 4 by simp
qed

text \<open>
  Claim C8. The sweep adds no entry. An entry whose \<open>done\<close> flag is set and whose
  \<open>finished_at\<close> lies further back than the retention window is absent afterwards; every
  other entry is present afterwards and is the same job, subprocess handle included. The
  sweep is a function of the clock and the registry alone. The entries are those the
  monitor leaves behind: \<open>finished_at\<close> is positive once the flag is set, since the monitor
  stores the clock before it sets the flag.
\<close>

theorem C8_cleanup_old_jobs:
  "(JOBS jid = None \<longrightarrow> cleanup_old_jobs now JOBS jid = None) \<and>
   (\<forall>j. JOBS jid = Some j \<and> (done_flag j \<longrightarrow> 0 < finished_at j) \<longrightarrow>
      (if done_flag j \<and> now - finished_at j > real JOB_RETENTION_SECONDS
       then cleanup_old_jobs now JOBS jid = None
       else cleanup_old_jobs now JOBS jid = Some j))"
  by (auto simp add: cleanup_old_jobs_def expired_def)

theorem C8_cleanup_old_jobs_witness:
  "cleanup_old_jobs 10000 example_registry ''zz'' = None \<and>
   cleanup_old_jobs 10000 example_registry ''a'' = None \<and>
   cleanup_old_jobs 10000 example_registry ''b'' = Some recent_job \<and>
   cleanup_old_jobs 10000 example_registry ''c'' = Some running_job"
proof -
  have n: "example_registry ''zz'' = None"
    and a: "example_registry ''a'' = Some old_job" "done_flag old_job" "finished_at old_job = 100"
    and b: "example_registry ''b'' = Some recent_job" "done_flag recent_job" "finished_at recent_job = 9000"
    and c: "example_registry ''c'' = Some running_job" "\<not> done_flag running_job"
    by (simp_all add: example_registry_def old_job_def recent_job_def running_job_def new_job_def)
  have 1: "cleanup_old_jobs 10000 example_registry ''zz'' = None"
    using C8_cleanup_old_jobs [of example_registry "''zz''" 10000] n by simp
  have "0 < finished_at old_job \<and> 10000 - finished_at old_job > real JOB_RETENTION_SECONDS"
    using a by (simp add: JOB_RETENTION_SECONDS_def)
  then have 2: "cleanup_old_jobs 10000 example_registry ''a'' = None"
    using C8_cleanup_old_jobs [of example_registry "''a''" 10000] a by auto
  have "0 < finished_at recent_job \<and> \<not> 10000 - finished_at recent_job > real JOB_RETENTION_SECONDS"
    using b by (simp add: JOB_RETENTION_SECONDS_def)
  then have 3: "cleanup_old_jobs 10000 example_registry ''b'' = Some recent_job"
    using C8_cleanup_old_jobs [of example_registry "''b''" 10000] b by auto
  have 4: "cleanup_old_jobs 10000 example_registry ''c'' = Some running_job"
    using C8_cleanup_old_jobs [of example_registry "''c''" 10000] c by auto
  show ?thesis using 1 2 3 4 by simp
qed

end
